theory Spec2Isabelle
  imports Main "HOL-Library.Sublist" "HOL-Library.AList" "HOL-Library.Multiset"
begin

section \<open>Keyword retrieval of the Ask Andrew apps\<close>

text \<open>
  A shallow embedding of the retrieval code of \<^verbatim>\<open>src/ask-andrew/script.js\<close>
  (\<^verbatim>\<open>loadIndex\<close>, \<^verbatim>\<open>performSearch\<close>, \<^verbatim>\<open>searchContext\<close>) and of its copy in
  \<^verbatim>\<open>src/computing-history/computing-local/app.js\<close>.

  Strings are lists of code units; the model covers the code units below 256 (Latin-1),
  which is what a \<^typ>\<open>char\<close> holds. The fields \<^verbatim>\<open>this.keywordMap\<close> and
  \<^verbatim>\<open>this.indexData\<close> of the app object are the parameters \<open>km\<close> and \<open>indexData\<close>.
  The writes to \<^verbatim>\<open>console.log\<close> and to the status element of the page are display only
  and are not part of the model.
\<close>

subsection \<open>Strings of the JavaScript runtime\<close>

text \<open>White space of \<^verbatim>\<open>\s\<close> and of \<^verbatim>\<open>trim\<close>: TAB, LF, VT, FF, CR, SP and NBSP.\<close>

definition isSpace :: "char \<Rightarrow> bool" where
  "isSpace c = (c = CHR 0x09 \<or> c = CHR 0x0A \<or> c = CHR 0x0B \<or> c = CHR 0x0C
     \<or> c = CHR 0x0D \<or> c = CHR 0x20 \<or> c = CHR 0xA0)"

text \<open>\<^verbatim>\<open>toLowerCase\<close>: A-Z and the capital letters of Latin-1 move up by 32.\<close>

definition toLowerChar :: "char \<Rightarrow> char" where
  "toLowerChar c =
     (let n = (of_char c :: nat)
      in if (65 \<le> n \<and> n \<le> 90) \<or> (192 \<le> n \<and> n \<le> 214) \<or> (216 \<le> n \<and> n \<le> 222)
         then char_of (n + 32) else c)"

definition toLowerCase :: "string \<Rightarrow> string" where
  "toLowerCase s = map toLowerChar s"

definition trim :: "string \<Rightarrow> string" where
  "trim s = rev (dropWhile isSpace (rev (dropWhile isSpace s)))"

text \<open>The character class \<^verbatim>\<open>[a-z0-9\s]\<close>.\<close>

definition isWordChar :: "char \<Rightarrow> bool" where
  "isWordChar c =
     (let n = (of_char c :: nat)
      in (97 \<le> n \<and> n \<le> 122) \<or> (48 \<le> n \<and> n \<le> 57) \<or> isSpace c)"

text \<open>\<^verbatim>\<open>replace(/[^a-z0-9\s]/g, ' ')\<close>\<close>

definition replacePunct :: "string \<Rightarrow> string" where
  "replacePunct s = map (\<lambda>c. if isWordChar c then c else CHR '' '') s"

text \<open>\<^verbatim>\<open>replace(/\s+/g, ' ')\<close>: every maximal run of white space becomes one space.\<close>

function collapseSpaces :: "string \<Rightarrow> string" where
  "collapseSpaces [] = []"
| "collapseSpaces (c # cs) =
     (if isSpace c then CHR '' '' # collapseSpaces (dropWhile isSpace cs)
      else c # collapseSpaces cs)"
  by pat_completeness auto
termination
  by (relation "measure length") (auto simp: le_imp_less_Suc length_dropWhile_le)

text \<open>\<^verbatim>\<open>s.split(sep)\<close> for a separator of one character: never an empty array.\<close>

fun str_split :: "char \<Rightarrow> string \<Rightarrow> string list" where
  "str_split sep [] = [[]]"
| "str_split sep (c # cs) =
     (if c = sep then [] # str_split sep cs
      else (case str_split sep cs of
              [] \<Rightarrow> [[c]]
            | w # ws \<Rightarrow> (c # w) # ws))"

text \<open>\<^verbatim>\<open>xs.join(sep)\<close>\<close>

fun join :: "string \<Rightarrow> string list \<Rightarrow> string" where
  "join sep [] = []"
| "join sep [w] = w"
| "join sep (w # v # ws) = w @ sep @ join sep (v # ws)"

text \<open>\<^verbatim>\<open>xs.slice(i, j)\<close> for \<open>0 \<le> i \<le> j\<close>; the end is clamped to the length.\<close>

definition slice :: "'a list \<Rightarrow> nat \<Rightarrow> nat \<Rightarrow> 'a list" where
  "slice xs i j = take (j - i) (drop i xs)"

text \<open>\<^verbatim>\<open>s.includes(t)\<close>: \<open>t\<close> occurs in \<open>s\<close> as a contiguous substring.\<close>

definition str_includes :: "string \<Rightarrow> string \<Rightarrow> bool" where
  "str_includes s t = sublist t s"

subsection \<open>Sets and Maps of the JavaScript runtime\<close>

text \<open>
  A \<^verbatim>\<open>Set\<close> is the list of its members in insertion order, a \<^verbatim>\<open>Map\<close> the list of its
  entries in insertion order; \<^verbatim>\<open>set\<close> on a key that is present replaces the value in place.
\<close>

definition Set_add :: "'a \<Rightarrow> 'a list \<Rightarrow> 'a list" where
  "Set_add x s = (if x \<in> set s then s else s @ [x])"

definition Set_of :: "'a list \<Rightarrow> 'a list" where
  "Set_of xs = foldl (\<lambda>s x. Set_add x s) [] xs"

definition Map_set :: "'k \<Rightarrow> 'v \<Rightarrow> ('k \<times> 'v) list \<Rightarrow> ('k \<times> 'v) list" where
  "Map_set k v m = AList.update k v m"

definition Map_get :: "('k \<times> 'v) list \<Rightarrow> 'k \<Rightarrow> 'v option" where
  "Map_get m k = map_of m k"

definition Map_has :: "('k \<times> 'v) list \<Rightarrow> 'k \<Rightarrow> bool" where
  "Map_has m k = (map_of m k \<noteq> None)"

text \<open>Mutation of the object stored under a key.\<close>

definition Map_modify :: "'k \<Rightarrow> ('v \<Rightarrow> 'v) \<Rightarrow> ('k \<times> 'v) list \<Rightarrow> ('k \<times> 'v) list" where
  "Map_modify k f m = map (\<lambda>(k', v). if k' = k then (k', f v) else (k', v)) m"

subsection \<open>Data model\<close>

record document =
  doc_id :: string
  doc_title :: string
  doc_content :: string
  doc_keywords :: "string list"

record category =
  cat_category :: string
  cat_link :: string
  cat_documents :: "document list"

type_synonym indexData = "category list"

record entry =
  ent_document :: document
  ent_category :: string
  ent_link :: string

type_synonym keywordMap = "(string \<times> entry) list"

record ngram =
  ng_text :: string
  ng_length :: nat

record queryMatch =
  qm_document :: document
  qm_category :: string
  qm_link :: string
  qm_matchedKeywords :: "string list"

record searchResult =
  sr_matches :: "queryMatch list"
  sr_matchedKeywords :: "string list"

record contextResult =
  cr_context :: "string option"
  cr_categories :: "string list"
  cr_links :: "string list"
  cr_documents :: "document list"

subsection \<open>loadIndex: the keyword map\<close>

fun addKeywords :: "category \<Rightarrow> document \<Rightarrow> string list \<Rightarrow> keywordMap \<Rightarrow> keywordMap" where
  "addKeywords cat doc [] km = km"
| "addKeywords cat doc (keyword # rest) km =
     (let normalizedKeyword = trim (toLowerCase keyword)
      in addKeywords cat doc rest
           (if normalizedKeyword \<noteq> []
            then Map_set normalizedKeyword
                   \<lparr>ent_document = doc, ent_category = cat_category cat, ent_link = cat_link cat\<rparr> km
            else km))"

fun addDocuments :: "category \<Rightarrow> document list \<Rightarrow> keywordMap \<Rightarrow> keywordMap" where
  "addDocuments cat [] km = km"
| "addDocuments cat (doc # rest) km =
     addDocuments cat rest (addKeywords cat doc (doc_keywords doc) km)"

fun addCategories :: "indexData \<Rightarrow> keywordMap \<Rightarrow> keywordMap" where
  "addCategories [] km = km"
| "addCategories (cat # rest) km =
     addCategories rest (addDocuments cat (cat_documents cat) km)"

definition loadIndex :: "indexData \<Rightarrow> keywordMap" where
  "loadIndex idx = addCategories idx []"

subsection \<open>performSearch\<close>

definition questionWords :: "string \<Rightarrow> string list" where
  "questionWords userQuestion =
     (let lowerQuestion = trim (toLowerCase userQuestion);
          normalizedQuestion = trim (collapseSpaces (replacePunct lowerQuestion))
      in str_split (CHR '' '') normalizedQuestion)"

text \<open>
  The loops \<^verbatim>\<open>for (let i = 0; i <= words.length - n; i++)\<close> for \<open>n = 3\<close> and \<open>n = 2\<close>;
  the bound is computed in the integers, since \<^verbatim>\<open>words.length - n\<close> may be negative.
\<close>

function pushWindows :: "nat \<Rightarrow> string list \<Rightarrow> nat \<Rightarrow> ngram list \<Rightarrow> ngram list" where
  "pushWindows n words i nGrams =
     (if int i \<le> int (length words) - int n
      then pushWindows n words (Suc i)
             (nGrams @ [\<lparr>ng_text = join '' '' (slice words i (i + n)), ng_length = n\<rparr>])
      else nGrams)"
  by pat_completeness auto
termination
  by (relation "measure (\<lambda>(n, words, i, nGrams). Suc (length words) - i)") auto

declare pushWindows.simps [simp del]

definition stopWords :: "string list" where
  "stopWords = [''what'', ''is'', ''are'', ''the'', ''a'', ''an'', ''how'', ''does'', ''do'',
     ''can'', ''about'', ''tell'', ''me'', ''explain'', ''describe'', ''show'', ''give'']"

fun pushUnigrams :: "string list \<Rightarrow> ngram list \<Rightarrow> ngram list" where
  "pushUnigrams [] nGrams = nGrams"
| "pushUnigrams (word # rest) nGrams =
     pushUnigrams rest
       (if 2 \<le> length word \<and> word \<notin> set stopWords
        then nGrams @ [\<lparr>ng_text = word, ng_length = 1\<rparr>]
        else nGrams)"

definition extractNgrams :: "string \<Rightarrow> ngram list" where
  "extractNgrams userQuestion =
     (let words = questionWords userQuestion
      in pushUnigrams words (pushWindows 2 words 0 (pushWindows 3 words 0 [])))"

text \<open>
  One round of \<^verbatim>\<open>nGrams.forEach\<close>: the state is the Set \<^verbatim>\<open>matchedKeywords\<close> and the Map
  \<^verbatim>\<open>documentMatches\<close> from document id to bucket.
\<close>

type_synonym matchState = "string list \<times> (string \<times> queryMatch) list"

definition matchStep :: "keywordMap \<Rightarrow> matchState \<Rightarrow> ngram \<Rightarrow> matchState" where
  "matchStep km st ngram =
     (case Map_get km (ng_text ngram) of
        None \<Rightarrow> st
      | Some match \<Rightarrow>
          (let matchedKeywords = Set_add (ng_text ngram) (fst st);
               docId = doc_id (ent_document match);
               documentMatches =
                 (if \<not> Map_has (snd st) docId
                  then Map_set docId
                         \<lparr>qm_document = ent_document match, qm_category = ent_category match,
                          qm_link = ent_link match, qm_matchedKeywords = []\<rparr> (snd st)
                  else snd st)
           in (matchedKeywords,
               Map_modify docId
                 (\<lambda>b. b\<lparr>qm_matchedKeywords := qm_matchedKeywords b @ [ng_text ngram]\<rparr>)
                 documentMatches)))"

fun matchNgrams :: "keywordMap \<Rightarrow> ngram list \<Rightarrow> matchState \<Rightarrow> matchState" where
  "matchNgrams km [] st = st"
| "matchNgrams km (ngram # rest) st = matchNgrams km rest (matchStep km st ngram)"

text \<open>The number of words of a keyword, \<^verbatim>\<open>a.split(' ').length\<close>.\<close>

definition wordCount :: "string \<Rightarrow> nat" where
  "wordCount a = length (str_split (CHR '' '') a)"

text \<open>
  \<^verbatim>\<open>Array.from(matchedKeywords).sort((a, b) => bWords - aWords)\<close>: a stable sort, longer
  phrases first.
\<close>

definition sortedKeywords :: "string list \<Rightarrow> string list" where
  "sortedKeywords matchedKeywords = sort_key (\<lambda>a. - int (wordCount a)) matchedKeywords"

definition isSubset :: "string list \<Rightarrow> string \<Rightarrow> bool" where
  "isSubset filteredKeywords keyword =
     list_ex (\<lambda>existing. existing \<noteq> keyword \<and> str_includes existing keyword) filteredKeywords"

fun filterLoop :: "string list \<Rightarrow> string list \<Rightarrow> string list" where
  "filterLoop [] filteredKeywords = filteredKeywords"
| "filterLoop (keyword # rest) filteredKeywords =
     filterLoop rest
       (if \<not> isSubset filteredKeywords keyword then Set_add keyword filteredKeywords
        else filteredKeywords)"

definition filterSubsets :: "string list \<Rightarrow> string list" where
  "filterSubsets matchedKeywords = filterLoop (sortedKeywords matchedKeywords) []"

text \<open>\<^verbatim>\<open>documentMatches.forEach\<close>: the buckets that keep a keyword, in insertion order.\<close>

fun rebuild :: "string list \<Rightarrow> (string \<times> queryMatch) list \<Rightarrow> queryMatch list \<Rightarrow> queryMatch list" where
  "rebuild filteredKeywords [] finalDocumentMatches = finalDocumentMatches"
| "rebuild filteredKeywords ((docId, match) # rest) finalDocumentMatches =
     (let validKeywords = filter (\<lambda>kw. kw \<in> set filteredKeywords) (qm_matchedKeywords match)
      in rebuild filteredKeywords rest
           (if 0 < length validKeywords
            then finalDocumentMatches @ [match\<lparr>qm_matchedKeywords := validKeywords\<rparr>]
            else finalDocumentMatches))"

text \<open>
  The state after the matching loop (the Set \<^verbatim>\<open>matchedKeywords\<close> and the Map
  \<^verbatim>\<open>documentMatches\<close>), and the kept keywords \<^verbatim>\<open>filteredKeywords\<close>.
\<close>

definition matchPhase :: "keywordMap \<Rightarrow> string \<Rightarrow> matchState" where
  "matchPhase km userQuestion = matchNgrams km (extractNgrams userQuestion) ([], [])"

definition matchedKeywords :: "keywordMap \<Rightarrow> string \<Rightarrow> string list" where
  "matchedKeywords km userQuestion = fst (matchPhase km userQuestion)"

definition documentMatches :: "keywordMap \<Rightarrow> string \<Rightarrow> (string \<times> queryMatch) list" where
  "documentMatches km userQuestion = snd (matchPhase km userQuestion)"

definition filteredKeywords :: "keywordMap \<Rightarrow> string \<Rightarrow> string list" where
  "filteredKeywords km userQuestion = filterSubsets (matchedKeywords km userQuestion)"

definition performSearch :: "keywordMap \<Rightarrow> string \<Rightarrow> searchResult" where
  "performSearch km userQuestion =
     \<lparr>sr_matches = rebuild (filteredKeywords km userQuestion) (documentMatches km userQuestion) [],
      sr_matchedKeywords = filteredKeywords km userQuestion\<rparr>"

subsection \<open>searchContext\<close>

text \<open>
  \<^verbatim>\<open>searchContext\<close> calls \<^verbatim>\<open>performSearch\<close> and builds the result from its matches; that
  second part is \<open>assemble\<close>, the name the specification gives it. \<^verbatim>\<open>find\<close> returns the
  first category of the name, \<^verbatim>\<open>[...new Set(xs)]\<close> is \<open>Set_of\<close>.
\<close>

definition newline :: string where
  "newline = [CHR 0x0A]"

definition emptyResult :: contextResult where
  "emptyResult = \<lparr>cr_context = None, cr_categories = [], cr_links = [], cr_documents = []\<rparr>"

definition fallbackResult :: "indexData \<Rightarrow> contextResult" where
  "fallbackResult indexData =
     (case find (\<lambda>cat. cat_category cat = ''AI Concepts'') indexData of
        None \<Rightarrow> emptyResult
      | Some aiConceptsCategory \<Rightarrow>
          (case cat_documents aiConceptsCategory of
             [] \<Rightarrow> emptyResult
           | fallbackDoc # _ \<Rightarrow>
               \<lparr>cr_context = Some (''['' @ cat_category aiConceptsCategory @ '']'' @ newline
                                    @ doc_content fallbackDoc),
                cr_categories = [cat_category aiConceptsCategory],
                cr_links = [cat_link aiConceptsCategory],
                cr_documents = [fallbackDoc]\<rparr>))"

definition contextPart :: "queryMatch \<Rightarrow> string" where
  "contextPart match =
     ''['' @ qm_category match @ '' - '' @ doc_title (qm_document match) @ '']'' @ newline
     @ doc_content (qm_document match)"

definition assemble :: "queryMatch list \<Rightarrow> indexData \<Rightarrow> contextResult" where
  "assemble matches indexData =
     (if length matches = 0 then fallbackResult indexData
      else \<lparr>cr_context = Some (join (newline @ newline) (map contextPart matches)),
            cr_categories = Set_of (map qm_category matches),
            cr_links = Set_of (map qm_link matches),
            cr_documents = map qm_document matches\<rparr>)"

definition searchContext :: "keywordMap \<Rightarrow> indexData \<Rightarrow> string \<Rightarrow> contextResult" where
  "searchContext km indexData userQuestion =
     assemble (sr_matches (performSearch km userQuestion)) indexData"

subsection \<open>The copy in the computing-history app\<close>

text \<open>
  \<^verbatim>\<open>performSearch\<close> and \<^verbatim>\<open>searchContext\<close> of
  \<^verbatim>\<open>src/computing-history/computing-local/app.js\<close>, translated from that file on their own;
  local variables whose names are constants above carry a prime.
\<close>

definition ch_questionWords :: "string \<Rightarrow> string list" where
  "ch_questionWords userQuestion =
     (let lowerQuestion = trim (toLowerCase userQuestion);
          normalizedQuestion = trim (collapseSpaces (replacePunct lowerQuestion))
      in str_split (CHR '' '') normalizedQuestion)"

function ch_pushWindows :: "nat \<Rightarrow> string list \<Rightarrow> nat \<Rightarrow> ngram list \<Rightarrow> ngram list" where
  "ch_pushWindows n words i nGrams =
     (if int i \<le> int (length words) - int n
      then ch_pushWindows n words (Suc i)
             (nGrams @ [\<lparr>ng_text = join '' '' (slice words i (i + n)), ng_length = n\<rparr>])
      else nGrams)"
  by pat_completeness auto

termination
  by (relation "measure (\<lambda>(n, words, i, nGrams). Suc (length words) - i)") auto

declare ch_pushWindows.simps [simp del]

definition ch_stopWords :: "string list" where
  "ch_stopWords = [''what'', ''is'', ''are'', ''the'', ''a'', ''an'', ''how'', ''does'', ''do'',
     ''can'', ''about'', ''tell'', ''me'', ''explain'', ''describe'', ''show'', ''give'']"

fun ch_pushUnigrams :: "string list \<Rightarrow> ngram list \<Rightarrow> ngram list" where
  "ch_pushUnigrams [] nGrams = nGrams"
| "ch_pushUnigrams (word # rest) nGrams =
     ch_pushUnigrams rest
       (if 2 \<le> length word \<and> word \<notin> set ch_stopWords
        then nGrams @ [\<lparr>ng_text = word, ng_length = 1\<rparr>]
        else nGrams)"

definition ch_extractNgrams :: "string \<Rightarrow> ngram list" where
  "ch_extractNgrams userQuestion =
     (let words = ch_questionWords userQuestion
      in ch_pushUnigrams words (ch_pushWindows 2 words 0 (ch_pushWindows 3 words 0 [])))"

definition ch_matchStep :: "keywordMap \<Rightarrow> matchState \<Rightarrow> ngram \<Rightarrow> matchState" where
  "ch_matchStep km st ngram =
     (case Map_get km (ng_text ngram) of
        None \<Rightarrow> st
      | Some match \<Rightarrow>
          (let matchedKeywords' = Set_add (ng_text ngram) (fst st);
               docId = doc_id (ent_document match);
               documentMatches' =
                 (if \<not> Map_has (snd st) docId
                  then Map_set docId
                         \<lparr>qm_document = ent_document match, qm_category = ent_category match,
                          qm_link = ent_link match, qm_matchedKeywords = []\<rparr> (snd st)
                  else snd st)
           in (matchedKeywords',
               Map_modify docId
                 (\<lambda>b. b\<lparr>qm_matchedKeywords := qm_matchedKeywords b @ [ng_text ngram]\<rparr>)
                 documentMatches')))"

fun ch_matchNgrams :: "keywordMap \<Rightarrow> ngram list \<Rightarrow> matchState \<Rightarrow> matchState" where
  "ch_matchNgrams km [] st = st"
| "ch_matchNgrams km (ngram # rest) st = ch_matchNgrams km rest (ch_matchStep km st ngram)"

definition ch_sortedKeywords :: "string list \<Rightarrow> string list" where
  "ch_sortedKeywords matchedKeywords' =
     sort_key (\<lambda>a. - int (length (str_split (CHR '' '') a))) matchedKeywords'"

fun ch_filterLoop :: "string list \<Rightarrow> string list \<Rightarrow> string list" where
  "ch_filterLoop [] filteredKeywords' = filteredKeywords'"
| "ch_filterLoop (keyword # rest) filteredKeywords' =
     ch_filterLoop rest
       (if \<not> list_ex (\<lambda>existing. existing \<noteq> keyword \<and> str_includes existing keyword)
                filteredKeywords'
        then Set_add keyword filteredKeywords'
        else filteredKeywords')"

fun ch_rebuild :: "string list \<Rightarrow> (string \<times> queryMatch) list \<Rightarrow> queryMatch list \<Rightarrow> queryMatch list" where
  "ch_rebuild filteredKeywords' [] finalDocumentMatches = finalDocumentMatches"
| "ch_rebuild filteredKeywords' ((docId, match) # rest) finalDocumentMatches =
     (let validKeywords = filter (\<lambda>kw. kw \<in> set filteredKeywords') (qm_matchedKeywords match)
      in ch_rebuild filteredKeywords' rest
           (if 0 < length validKeywords
            then finalDocumentMatches @ [match\<lparr>qm_matchedKeywords := validKeywords\<rparr>]
            else finalDocumentMatches))"

definition ch_performSearch :: "keywordMap \<Rightarrow> string \<Rightarrow> searchResult" where
  "ch_performSearch km userQuestion =
     (let nGrams = ch_extractNgrams userQuestion;
          st = ch_matchNgrams km nGrams ([], []);
          filteredKeywords' = ch_filterLoop (ch_sortedKeywords (fst st)) []
      in \<lparr>sr_matches = ch_rebuild filteredKeywords' (snd st) [],
          sr_matchedKeywords = filteredKeywords'\<rparr>)"

definition ch_searchContext :: "keywordMap \<Rightarrow> indexData \<Rightarrow> string \<Rightarrow> contextResult" where
  "ch_searchContext km indexData userQuestion =
     (let matches = sr_matches (ch_performSearch km userQuestion)
      in if length matches = 0
         then (case find (\<lambda>cat. cat_category cat = ''AI Concepts'') indexData of
                 None \<Rightarrow> \<lparr>cr_context = None, cr_categories = [], cr_links = [], cr_documents = []\<rparr>
               | Some aiConceptsCategory \<Rightarrow>
                   (if 0 < length (cat_documents aiConceptsCategory)
                    then (let fallbackDoc = hd (cat_documents aiConceptsCategory)
                          in \<lparr>cr_context = Some (''['' @ cat_category aiConceptsCategory @ '']''
                                                  @ [CHR 0x0A] @ doc_content fallbackDoc),
                              cr_categories = [cat_category aiConceptsCategory],
                              cr_links = [cat_link aiConceptsCategory],
                              cr_documents = [fallbackDoc]\<rparr>)
                    else \<lparr>cr_context = None, cr_categories = [], cr_links = [], cr_documents = []\<rparr>))
         else \<lparr>cr_context = Some (join [CHR 0x0A, CHR 0x0A]
                  (map (\<lambda>match. ''['' @ qm_category match @ '' - '' @ doc_title (qm_document match)
                                  @ '']'' @ [CHR 0x0A] @ doc_content (qm_document match)) matches)),
               cr_categories = Set_of (map qm_category matches),
               cr_links = Set_of (map qm_link matches),
               cr_documents = map qm_document matches\<rparr>)"

section \<open>The specification's notions\<close>

text \<open>
  The keyword occurrences of a Knowledge Index in load order. The normalized words of a
  question, step by step as the specification describes them and without the definitions
  of the code: lower case by a table of letters, every character that is neither one of
  \<^verbatim>\<open>a-z0-9\<close> nor white space replaced by a space, a white space character dropped when
  another follows it and made a space otherwise, white space dropped at both ends, the
  string cut at every space; the windows of a word sequence, a window as a phrase, and the
  candidates. Deduplication in first-occurrence order; the category that the fallback
  lookup finds; matches whose category names and links determine each other.
\<close>

definition keywordOccurrences :: "indexData \<Rightarrow> (string \<times> entry) list" where
  "keywordOccurrences idx =
     concat (map (\<lambda>cat. concat (map (\<lambda>doc.
        map (\<lambda>keyword. (keyword,
               \<lparr>ent_document = doc, ent_category = cat_category cat, ent_link = cat_link cat\<rparr>))
            (doc_keywords doc)) (cat_documents cat))) idx)"

definition normalizedOccurrences :: "indexData \<Rightarrow> (string \<times> entry) list" where
  "normalizedOccurrences idx =
     filter (\<lambda>p. fst p \<noteq> [])
       (map (\<lambda>p. (trim (toLowerCase (fst p)), snd p)) (keywordOccurrences idx))"

definition setAll :: "(string \<times> entry) list \<Rightarrow> keywordMap \<Rightarrow> keywordMap" where
  "setAll ps km = foldl (\<lambda>m p. Map_set (fst p) (snd p) m) km ps"

definition allDocuments :: "indexData \<Rightarrow> document list" where
  "allDocuments idx = concat (map cat_documents idx)"

definition spec_upperCase :: string where
  "spec_upperCase = ''ABCDEFGHIJKLMNOPQRSTUVWXYZ''
     @ [CHR 0xC0, CHR 0xC1, CHR 0xC2, CHR 0xC3, CHR 0xC4, CHR 0xC5, CHR 0xC6, CHR 0xC7,
        CHR 0xC8, CHR 0xC9, CHR 0xCA, CHR 0xCB, CHR 0xCC, CHR 0xCD, CHR 0xCE, CHR 0xCF,
        CHR 0xD0, CHR 0xD1, CHR 0xD2, CHR 0xD3, CHR 0xD4, CHR 0xD5, CHR 0xD6,
        CHR 0xD8, CHR 0xD9, CHR 0xDA, CHR 0xDB, CHR 0xDC, CHR 0xDD, CHR 0xDE]"

definition spec_lowerCase :: string where
  "spec_lowerCase = ''abcdefghijklmnopqrstuvwxyz''
     @ [CHR 0xE0, CHR 0xE1, CHR 0xE2, CHR 0xE3, CHR 0xE4, CHR 0xE5, CHR 0xE6, CHR 0xE7,
        CHR 0xE8, CHR 0xE9, CHR 0xEA, CHR 0xEB, CHR 0xEC, CHR 0xED, CHR 0xEE, CHR 0xEF,
        CHR 0xF0, CHR 0xF1, CHR 0xF2, CHR 0xF3, CHR 0xF4, CHR 0xF5, CHR 0xF6,
        CHR 0xF8, CHR 0xF9, CHR 0xFA, CHR 0xFB, CHR 0xFC, CHR 0xFD, CHR 0xFE]"

definition spec_lower :: "string \<Rightarrow> string" where
  "spec_lower s =
     map (\<lambda>c. case map_of (zip spec_upperCase spec_lowerCase) c of None \<Rightarrow> c | Some l \<Rightarrow> l) s"

definition spec_whitespace :: string where
  "spec_whitespace = [CHR 0x09, CHR 0x0A, CHR 0x0B, CHR 0x0C, CHR 0x0D, CHR 0x20, CHR 0xA0]"

definition spec_alnum :: string where
  "spec_alnum = ''abcdefghijklmnopqrstuvwxyz0123456789''"

definition spec_replace :: "string \<Rightarrow> string" where
  "spec_replace s =
     map (\<lambda>c. if c \<in> set spec_alnum \<or> c \<in> set spec_whitespace then c else CHR '' '') s"

fun spec_collapse :: "string \<Rightarrow> string" where
  "spec_collapse [] = []"
| "spec_collapse [c] = [if c \<in> set spec_whitespace then CHR '' '' else c]"
| "spec_collapse (c # d # cs) =
     (if c \<in> set spec_whitespace \<and> d \<in> set spec_whitespace then spec_collapse (d # cs)
      else (if c \<in> set spec_whitespace then CHR '' '' else c) # spec_collapse (d # cs))"

primrec spec_dropStart :: "string \<Rightarrow> string" where
  "spec_dropStart [] = []"
| "spec_dropStart (c # cs) = (if c \<in> set spec_whitespace then spec_dropStart cs else c # cs)"

definition spec_dropEnd :: "string \<Rightarrow> string" where
  "spec_dropEnd s = foldr (\<lambda>c rest. if c \<in> set spec_whitespace \<and> rest = [] then [] else c # rest) s []"

definition spec_trim :: "string \<Rightarrow> string" where
  "spec_trim s = spec_dropEnd (spec_dropStart s)"

function spec_split :: "string \<Rightarrow> string list" where
  "spec_split s =
     (if CHR '' '' \<in> set s
      then takeWhile (\<lambda>c. c \<noteq> CHR '' '') s # spec_split (tl (dropWhile (\<lambda>c. c \<noteq> CHR '' '') s))
      else [s])"
  by pat_completeness auto

termination
proof (relation "measure length")
  fix s :: string
  assume a: "CHR '' '' \<in> set s"
  then have "dropWhile (\<lambda>c. c \<noteq> CHR '' '') s \<noteq> []" by auto
  then have "length (tl (dropWhile (\<lambda>c. c \<noteq> CHR '' '') s))
      < length (dropWhile (\<lambda>c. c \<noteq> CHR '' '') s)"
    by (cases "dropWhile (\<lambda>c. c \<noteq> CHR '' '') s") simp_all
  also have "\<dots> \<le> length s" by (rule length_dropWhile_le)
  finally show "(tl (dropWhile (\<lambda>c. c \<noteq> CHR '' '') s), s) \<in> measure length" by simp
qed simp

declare spec_split.simps [simp del]

primrec spec_phrase :: "string list \<Rightarrow> string" where
  "spec_phrase [] = []"
| "spec_phrase (w # ws) = w @ concat (map (\<lambda>v. CHR '' '' # v) ws)"

definition spec_words :: "string \<Rightarrow> string list" where
  "spec_words question =
     spec_split (spec_trim (spec_collapse (spec_replace (spec_lower question))))"

fun spec_windows :: "nat \<Rightarrow> 'a list \<Rightarrow> 'a list list" where
  "spec_windows n [] = []"
| "spec_windows n (w # ws) =
     (if n \<le> length (w # ws) then take n (w # ws) # spec_windows n ws else [])"

definition spec_stopWords :: "string set" where
  "spec_stopWords = {''what'', ''is'', ''are'', ''the'', ''a'', ''an'', ''how'', ''does'', ''do'',
     ''can'', ''about'', ''tell'', ''me'', ''explain'', ''describe'', ''show'', ''give''}"

definition spec_candidates :: "string \<Rightarrow> string list" where
  "spec_candidates question =
     (let ws = spec_words question
      in map spec_phrase (spec_windows 3 ws) @ map spec_phrase (spec_windows 2 ws)
         @ filter (\<lambda>w. 2 \<le> length w \<and> w \<notin> spec_stopWords) ws)"

primrec spec_dedup :: "'a list \<Rightarrow> 'a list" where
  "spec_dedup [] = []"
| "spec_dedup (x # xs) = x # removeAll x (spec_dedup xs)"

definition fallbackCategory :: "indexData \<Rightarrow> category \<Rightarrow> bool" where
  "fallbackCategory idx cat \<longleftrightarrow>
     (\<exists>pre post. idx = pre @ cat # post \<and> cat_category cat = ''AI Concepts''
        \<and> (\<forall>c\<in>set pre. cat_category c \<noteq> ''AI Concepts''))"

definition aligned :: "queryMatch list \<Rightarrow> bool" where
  "aligned matches \<longleftrightarrow>
     (\<forall>m\<in>set matches. \<forall>m'\<in>set matches.
        (qm_category m = qm_category m') = (qm_link m = qm_link m'))"

subsection \<open>Invariant of the matching loop\<close>

text \<open>
  The n-gram texts that hit an entry of document \<open>d\<close>, where the fields of a bucket come
  from, the invariant of the loop over the n-grams, and documents identified by their id.
\<close>

definition bucketTexts :: "keywordMap \<Rightarrow> string \<Rightarrow> string list \<Rightarrow> string list" where
  "bucketTexts km d ts =
     filter (\<lambda>t. case map_of km t of None \<Rightarrow> False | Some e \<Rightarrow> doc_id (ent_document e) = d) ts"

definition hitOf :: "keywordMap \<Rightarrow> string list \<Rightarrow> queryMatch \<Rightarrow> bool" where
  "hitOf km ts b \<longleftrightarrow>
     (\<exists>t e. t \<in> set ts \<and> map_of km t = Some e \<and> qm_document b = ent_document e
        \<and> qm_category b = ent_category e \<and> qm_link b = ent_link e)"

definition matchInv :: "keywordMap \<Rightarrow> string list \<Rightarrow> matchState \<Rightarrow> bool" where
  "matchInv km ts st \<longleftrightarrow>
     set (fst st) = {t \<in> set ts. map_of km t \<noteq> None} \<and> distinct (fst st)
     \<and> distinct (map fst (snd st))
     \<and> (\<forall>d b. (d, b) \<in> set (snd st) \<longrightarrow>
           qm_matchedKeywords b = bucketTexts km d ts \<and> doc_id (qm_document b) = d \<and> hitOf km ts b)
     \<and> fst ` set (snd st) = {doc_id (ent_document e) | t e. t \<in> set ts \<and> map_of km t = Some e}"

definition uniqueDocIds :: "keywordMap \<Rightarrow> bool" where
  "uniqueDocIds km \<longleftrightarrow>
     (\<forall>e e'. e \<in> snd ` set km \<and> e' \<in> snd ` set km
        \<and> doc_id (ent_document e) = doc_id (ent_document e') \<longrightarrow> ent_document e = ent_document e')"

subsection \<open>Concrete indexes\<close>

text \<open>
  The Knowledge Index of the specification's concrete scenarios (the link of its second
  category is not given there and is chosen here), and small indexes: keywords that
  contain one another, one keyword under two documents, two categories with one link, two
  categories with three documents, two documents with one id.
\<close>

definition scenarioDoc1 :: document where
  "scenarioDoc1 = \<lparr>doc_id = ''d1'', doc_title = ''Neural Networks'',
     doc_content = ''Neural networks are...'',
     doc_keywords = [''neural network'', ''neural networks'', ''deep learning'']\<rparr>"

definition scenarioDoc2 :: document where
  "scenarioDoc2 = \<lparr>doc_id = ''d2'', doc_title = ''Tokenization'',
     doc_content = ''Tokenization splits...'', doc_keywords = [''tokenization'', ''token'']\<rparr>"

definition scenarioIndex :: indexData where
  "scenarioIndex =
     [\<lparr>cat_category = ''AI Concepts'', cat_link = ''https://example.com/ai'',
       cat_documents = [scenarioDoc1]\<rparr>,
      \<lparr>cat_category = ''NLP'', cat_link = ''https://example.com/nlp'',
       cat_documents = [scenarioDoc2]\<rparr>]"

definition emptyFallbackIndex :: indexData where
  "emptyFallbackIndex =
     [\<lparr>cat_category = ''AI Concepts'', cat_link = ''https://example.com/ai'',
       cat_documents = []\<rparr>]"

definition tokensQuestion :: string where
  "tokensQuestion = ''Tell me about tokenization and tokens''"

definition llmDocA :: document where
  "llmDocA = \<lparr>doc_id = ''a'', doc_title = ''Models'', doc_content = ''Large language models are...'',
     doc_keywords = [''Large Language Models'']\<rparr>"

definition llmDocB :: document where
  "llmDocB = \<lparr>doc_id = ''b'', doc_title = ''Model'', doc_content = ''A large language model is...'',
     doc_keywords = [''large language model'']\<rparr>"

definition llmDocC :: document where
  "llmDocC = \<lparr>doc_id = ''c'', doc_title = ''Language'', doc_content = ''A language model is...'',
     doc_keywords = [''language model'', ''language'']\<rparr>"

definition llmIndex :: indexData where
  "llmIndex = [\<lparr>cat_category = ''AI Concepts'', cat_link = ''https://example.com/ai'',
     cat_documents = [llmDocA, llmDocB, llmDocC]\<rparr>]"

definition llmQuestion :: string where
  "llmQuestion = ''Large language models vs a large language model?''"

definition llmQuestion2 :: string where
  "llmQuestion2 = ''What is a large language model?''"

definition dupDoc1 :: document where
  "dupDoc1 = \<lparr>doc_id = ''t1'', doc_title = ''Tokens'', doc_content = ''A token is...'',
     doc_keywords = [''token'']\<rparr>"

definition dupDoc2 :: document where
  "dupDoc2 = \<lparr>doc_id = ''t2'', doc_title = ''Billing'', doc_content = ''Tokens are billed...'',
     doc_keywords = ['' Token '']\<rparr>"

definition dupIndex :: indexData where
  "dupIndex = [\<lparr>cat_category = ''NLP'', cat_link = ''https://example.com/nlp'',
     cat_documents = [dupDoc1, dupDoc2]\<rparr>]"

definition sharedDoc1 :: document where
  "sharedDoc1 = \<lparr>doc_id = ''s1'', doc_title = ''Regression'', doc_content = ''Regression is...'',
     doc_keywords = [''regression'']\<rparr>"

definition sharedDoc2 :: document where
  "sharedDoc2 = \<lparr>doc_id = ''s2'', doc_title = ''Networks'', doc_content = ''A network is...'',
     doc_keywords = [''network'']\<rparr>"

definition sharedDoc3 :: document where
  "sharedDoc3 = \<lparr>doc_id = ''s3'', doc_title = ''Tokens'', doc_content = ''A token is...'',
     doc_keywords = [''token'']\<rparr>"

definition sharedLinkIndex :: indexData where
  "sharedLinkIndex =
     [\<lparr>cat_category = ''Machine Learning'', cat_link = ''https://example.com/learn'',
       cat_documents = [sharedDoc1]\<rparr>,
      \<lparr>cat_category = ''Deep Learning'', cat_link = ''https://example.com/learn'',
       cat_documents = [sharedDoc2]\<rparr>,
      \<lparr>cat_category = ''NLP'', cat_link = ''https://example.com/nlp'',
       cat_documents = [sharedDoc3]\<rparr>]"

definition sharedQuestion :: string where
  "sharedQuestion = ''regression network token''"

definition pairDoc1 :: document where
  "pairDoc1 = \<lparr>doc_id = ''p1'', doc_title = ''Tokens'', doc_content = ''A token is...'',
     doc_keywords = [''token'', ''corpus'']\<rparr>"

definition pairDoc2 :: document where
  "pairDoc2 = \<lparr>doc_id = ''p2'', doc_title = ''Stemming'', doc_content = ''Stemming cuts...'',
     doc_keywords = [''stemming'']\<rparr>"

definition pairDoc3 :: document where
  "pairDoc3 = \<lparr>doc_id = ''p3'', doc_title = ''Pixels'', doc_content = ''A pixel is...'',
     doc_keywords = [''pixel'']\<rparr>"

definition pairIndex :: indexData where
  "pairIndex =
     [\<lparr>cat_category = ''NLP'', cat_link = ''https://example.com/nlp'',
       cat_documents = [pairDoc1, pairDoc2]\<rparr>,
      \<lparr>cat_category = ''Vision'', cat_link = ''https://example.com/vision'',
       cat_documents = [pairDoc3]\<rparr>]"

definition pairQuestion :: string where
  "pairQuestion = ''token pixel stemming corpus''"

definition sameIdDoc1 :: document where
  "sameIdDoc1 = \<lparr>doc_id = ''x'', doc_title = ''Foo'', doc_content = ''Foo is...'',
     doc_keywords = [''foo'']\<rparr>"

definition sameIdDoc2 :: document where
  "sameIdDoc2 = \<lparr>doc_id = ''x'', doc_title = ''Bar'', doc_content = ''Bar is...'',
     doc_keywords = [''bar'']\<rparr>"

definition sameIdIndex :: indexData where
  "sameIdIndex =
     [\<lparr>cat_category = ''NLP'', cat_link = ''https://example.com/nlp'',
       cat_documents = [sameIdDoc1, sameIdDoc2]\<rparr>]"

definition punctQuestion :: string where
  "punctQuestion = ''  What is  a Neural-Network??  It   LEARNS!''"

section \<open>Properties\<close>

subsection \<open>The matching loop and the rebuilt buckets\<close>

lemma rebuild_eq:
  "rebuild kept dm acc =
     acc @ concat (map (\<lambda>(d, b).
        if filter (\<lambda>kw. kw \<in> set kept) (qm_matchedKeywords b) \<noteq> []
        then [b\<lparr>qm_matchedKeywords := filter (\<lambda>kw. kw \<in> set kept) (qm_matchedKeywords b)\<rparr>]
        else []) dm)"
  by (induction dm arbitrary: acc) (auto simp: Let_def)

lemma in_rebuild:
  "m \<in> set (rebuild kept dm []) \<longleftrightarrow>
     (\<exists>d b. (d, b) \<in> set dm
        \<and> filter (\<lambda>kw. kw \<in> set kept) (qm_matchedKeywords b) \<noteq> []
        \<and> m = b\<lparr>qm_matchedKeywords := filter (\<lambda>kw. kw \<in> set kept) (qm_matchedKeywords b)\<rparr>)"
  by (simp add: rebuild_eq) (auto split: if_splits)

lemma matchNgrams_foldl: "matchNgrams km ngs st = foldl (matchStep km) st ngs"
  by (induction ngs arbitrary: st) auto

lemma update_fresh: "k \<notin> fst ` set m \<Longrightarrow> AList.update k v m = m @ [(k, v)]"
  by (induction m) auto

lemma map_fst_Map_modify [simp]: "map fst (Map_modify k f m) = map fst m"
  by (induction m) (auto simp: Map_modify_def)

lemma in_Map_modify:
  "(d, b') \<in> set (Map_modify k f m) \<longleftrightarrow>
     (\<exists>b. (d, b) \<in> set m \<and> b' = (if d = k then f b else b))"
  unfolding Map_modify_def by (force split: if_splits)

lemma hitOf_mono: "hitOf km ts b \<Longrightarrow> hitOf km (ts @ us) b"
  by (auto simp: hitOf_def)

lemma matchInv_init: "matchInv km [] ([], [])"
  by (simp add: matchInv_def)

lemma matchInv_step_None:
  assumes "matchInv km ts st" "map_of km (ng_text x) = None"
  shows "matchInv km (ts @ [ng_text x]) (matchStep km st x)"
proof -
  have "matchStep km st x = st" using assms(2) by (simp add: matchStep_def Map_get_def)
  moreover have "bucketTexts km d (ts @ [ng_text x]) = bucketTexts km d ts" for d
    using assms(2) by (simp add: bucketTexts_def)
  ultimately show ?thesis using assms unfolding matchInv_def
    by (auto intro: hitOf_mono)
qed

lemma matchInv_step_Some:
  assumes inv: "matchInv km ts st" and hit: "map_of km (ng_text x) = Some e"
  shows "matchInv km (ts @ [ng_text x]) (matchStep km st x)"
proof -
  define t where "t = ng_text x"
  define k where "k = doc_id (ent_document e)"
  define fresh where "fresh = \<lparr>qm_document = ent_document e, qm_category = ent_category e,
    qm_link = ent_link e, qm_matchedKeywords = []\<rparr>"
  define dm0 where "dm0 = (if k \<in> fst ` set (snd st) then snd st else snd st @ [(k, fresh)])"
  define push :: "queryMatch \<Rightarrow> queryMatch" where "push = (\<lambda>b. b\<lparr>qm_matchedKeywords := qm_matchedKeywords b @ [t]\<rparr>)"
  have has: "Map_has (snd st) k \<longleftrightarrow> k \<in> fst ` set (snd st)"
    by (simp add: Map_has_def map_of_eq_None_iff)
  have step: "matchStep km st x = (Set_add t (fst st), Map_modify k push dm0)"
    using hit by (simp add: matchStep_def Map_get_def Let_def Map_has_def map_of_eq_None_iff
        Map_set_def update_fresh t_def k_def fresh_def dm0_def push_def)
  have bt: "bucketTexts km d (ts @ [t]) = bucketTexts km d ts @ (if d = k then [t] else [])" for d
    using hit by (simp add: bucketTexts_def t_def k_def)
  have keys: "fst ` set (snd st) = {doc_id (ent_document e') | t' e'. t' \<in> set ts \<and> map_of km t' = Some e'}"
    using inv by (simp add: matchInv_def)
  have fresh_bt: "bucketTexts km k ts = []" if "k \<notin> fst ` set (snd st)"
  proof -
    have "\<not> (case map_of km t' of None \<Rightarrow> False | Some e' \<Rightarrow> doc_id (ent_document e') = k)"
      if "t' \<in> set ts" for t'
      using that \<open>k \<notin> fst ` set (snd st)\<close> unfolding keys by (auto split: option.splits)
    then show ?thesis by (simp add: bucketTexts_def filter_empty_conv)
  qed
  have hit_fresh: "hitOf km (ts @ [t]) fresh"
    unfolding hitOf_def using hit by (auto simp: fresh_def t_def)
  have dm0_props: "qm_matchedKeywords b = bucketTexts km d ts \<and> doc_id (qm_document b) = d
      \<and> hitOf km (ts @ [t]) b" if "(d, b) \<in> set dm0" for d b
  proof (cases "(d, b) \<in> set (snd st)")
    case True
    then show ?thesis using inv by (auto simp: matchInv_def intro: hitOf_mono)
  next
    case False
    then have nk: "k \<notin> fst ` set (snd st)" and eq: "d = k" "b = fresh"
      using that by (auto simp: dm0_def split: if_splits)
    show ?thesis using fresh_bt[OF nk] hit_fresh by (simp add: eq) (simp add: fresh_def k_def)
  qed
  have c1: "set (Set_add t (fst st)) = {t' \<in> set (ts @ [t]). map_of km t' \<noteq> None}"
    using inv hit by (auto simp: matchInv_def Set_add_def t_def)
  have c2: "distinct (Set_add t (fst st))"
    using inv by (auto simp: matchInv_def Set_add_def)
  have c3: "distinct (map fst (Map_modify k push dm0))"
    using inv by (auto simp: matchInv_def dm0_def)
  have c4: "qm_matchedKeywords b = bucketTexts km d (ts @ [t]) \<and> doc_id (qm_document b) = d
      \<and> hitOf km (ts @ [t]) b" if "(d, b) \<in> set (Map_modify k push dm0)" for d b
  proof -
    from that obtain b0 where b0: "(d, b0) \<in> set dm0" "b = (if d = k then push b0 else b0)"
      by (auto simp: in_Map_modify)
    from dm0_props[OF b0(1)] show ?thesis
      by (auto simp: b0(2) bt push_def hitOf_def)
  qed
  have c5: "fst ` set (Map_modify k push dm0)
      = {doc_id (ent_document e') | t' e'. t' \<in> set (ts @ [t]) \<and> map_of km t' = Some e'}"
  proof -
    have "fst ` set (Map_modify k push dm0) = set (map fst (Map_modify k push dm0))"
      by (simp only: set_map)
    also have "\<dots> = insert k (fst ` set (snd st))" by (auto simp: dm0_def)
    also have "\<dots> = {doc_id (ent_document e') | t' e'. t' \<in> set (ts @ [t]) \<and> map_of km t' = Some e'}"
      unfolding keys using hit by (auto simp: t_def k_def)
    finally show ?thesis .
  qed
  show ?thesis
    unfolding step t_def[symmetric] matchInv_def fst_conv snd_conv
    using c1 c2 c3 c4 c5 by blast
qed

lemma matchInv_step:
  "matchInv km ts st \<Longrightarrow> matchInv km (ts @ [ng_text x]) (matchStep km st x)"
  by (cases "map_of km (ng_text x)") (auto intro: matchInv_step_None matchInv_step_Some)

lemma matchInv_matchNgrams:
  "matchInv km (map ng_text ngs) (matchNgrams km ngs ([], []))"
  unfolding matchNgrams_foldl
  by (induction ngs rule: rev_induct) (auto intro: matchInv_init matchInv_step)

lemma set_Set_add [simp]: "set (Set_add x s) = insert x (set s)"
  by (auto simp: Set_add_def)

lemma distinct_Set_add [simp]: "distinct (Set_add x s) = distinct s"
  by (auto simp: Set_add_def)

lemma filterLoop_subset: "set (filterLoop xs kept) \<subseteq> set kept \<union> set xs"
proof (induction xs arbitrary: kept)
  case Nil
  show ?case by simp
next
  case (Cons x xs)
  have "set (filterLoop (x # xs) kept)
      \<subseteq> set (if \<not> isSubset kept x then Set_add x kept else kept) \<union> set xs"
    using Cons.IH by simp
  also have "\<dots> \<subseteq> set kept \<union> set (x # xs)" by auto
  finally show ?case .
qed

lemma filterLoop_mono: "set kept \<subseteq> set (filterLoop xs kept)"
proof (induction xs arbitrary: kept)
  case Nil
  show ?case by simp
next
  case (Cons x xs)
  have "set kept \<subseteq> set (if \<not> isSubset kept x then Set_add x kept else kept)" by auto
  also have "\<dots> \<subseteq> set (filterLoop (x # xs) kept)" using Cons.IH by simp
  finally show ?case .
qed

lemma set_sortedKeywords [simp]: "set (sortedKeywords ms) = set ms"
  by (simp add: sortedKeywords_def)

lemma filterSubsets_subset: "set (filterSubsets ms) \<subseteq> set ms"
  using filterLoop_subset[of "sortedKeywords ms" "[]"] by (simp add: filterSubsets_def)

lemma matchInv_phase: "matchInv km (map ng_text (extractNgrams q)) (matchPhase km q)"
  unfolding matchPhase_def by (rule matchInv_matchNgrams)

lemma filteredKeywords_triggered:
  "kw \<in> set (filteredKeywords km q) \<Longrightarrow>
     kw \<in> set (map ng_text (extractNgrams q)) \<and> map_of km kw \<noteq> None"
  using filterSubsets_subset[of "fst (matchPhase km q)"] matchInv_phase[of km q]
  unfolding filteredKeywords_def matchedKeywords_def matchInv_def by blast

lemma in_bucketTexts:
  "kw \<in> set (bucketTexts km d ts) \<longleftrightarrow>
     kw \<in> set ts \<and> (\<exists>e. map_of km kw = Some e \<and> doc_id (ent_document e) = d)"
  by (auto simp: bucketTexts_def split: option.splits)

lemma bucket_props:
  assumes "(d, b) \<in> set (documentMatches km q)"
  shows "qm_matchedKeywords b = bucketTexts km d (map ng_text (extractNgrams q))"
    and "doc_id (qm_document b) = d"
    and "hitOf km (map ng_text (extractNgrams q)) b"
  using assms matchInv_phase[of km q] unfolding documentMatches_def matchInv_def by blast+

lemma buckets_distinct: "distinct (map fst (documentMatches km q))"
  using matchInv_phase[of km q] unfolding documentMatches_def matchInv_def by blast

lemma bucket_exists:
  assumes "t \<in> set (map ng_text (extractNgrams q))" "map_of km t = Some e"
  shows "\<exists>b. (doc_id (ent_document e), b) \<in> set (documentMatches km q)"
proof -
  have "doc_id (ent_document e) \<in> fst ` set (documentMatches km q)"
    using assms matchInv_phase[of km q] unfolding documentMatches_def matchInv_def by blast
  then show ?thesis by force
qed

lemma in_matches:
  "m \<in> set (sr_matches (performSearch km q)) \<longleftrightarrow>
     (\<exists>d b. (d, b) \<in> set (documentMatches km q)
        \<and> filter (\<lambda>kw. kw \<in> set (filteredKeywords km q)) (qm_matchedKeywords b) \<noteq> []
        \<and> m = b\<lparr>qm_matchedKeywords :=
                  filter (\<lambda>kw. kw \<in> set (filteredKeywords km q)) (qm_matchedKeywords b)\<rparr>)"
  by (simp add: performSearch_def in_rebuild)

lemma kept_in_own_bucket:
  assumes kw: "kw \<in> set (filteredKeywords km q)" and e: "map_of km kw = Some e"
  shows "\<exists>m. m \<in> set (sr_matches (performSearch km q)) \<and> kw \<in> set (qm_matchedKeywords m)
           \<and> doc_id (qm_document m) = doc_id (ent_document e)"
proof -
  have ts: "kw \<in> set (map ng_text (extractNgrams q))"
    using filteredKeywords_triggered[OF kw] by blast
  from bucket_exists[OF ts e] obtain b where
    b: "(doc_id (ent_document e), b) \<in> set (documentMatches km q)" by blast
  have "kw \<in> set (qm_matchedKeywords b)"
    unfolding bucket_props(1)[OF b] in_bucketTexts using ts e by simp
  then have v: "kw \<in> set (filter (\<lambda>k. k \<in> set (filteredKeywords km q)) (qm_matchedKeywords b))"
    using kw by simp
  let ?m = "b\<lparr>qm_matchedKeywords :=
              filter (\<lambda>k. k \<in> set (filteredKeywords km q)) (qm_matchedKeywords b)\<rparr>"
  have "?m \<in> set (sr_matches (performSearch km q))"
    unfolding in_matches using b v by (metis empty_iff list.set(1))
  moreover have "kw \<in> set (qm_matchedKeywords ?m)" using v by simp
  moreover have "doc_id (qm_document ?m) = doc_id (ent_document e)"
    using bucket_props(2)[OF b] by simp
  ultimately show ?thesis by blast
qed

lemma match_keyword_props:
  assumes m: "m \<in> set (sr_matches (performSearch km q))" and kw: "kw \<in> set (qm_matchedKeywords m)"
  shows "kw \<in> set (filteredKeywords km q)"
    and "\<exists>e. map_of km kw = Some e \<and> doc_id (ent_document e) = doc_id (qm_document m)"
    and "(doc_id (qm_document m),
          m\<lparr>qm_matchedKeywords := bucketTexts km (doc_id (qm_document m)) (map ng_text (extractNgrams q))\<rparr>)
         \<in> set (documentMatches km q)"
proof -
  from m obtain d b where b: "(d, b) \<in> set (documentMatches km q)"
    and eq: "m = b\<lparr>qm_matchedKeywords :=
              filter (\<lambda>k. k \<in> set (filteredKeywords km q)) (qm_matchedKeywords b)\<rparr>"
    unfolding in_matches by blast
  have d: "doc_id (qm_document m) = d" using bucket_props(2)[OF b] eq by simp
  show "kw \<in> set (filteredKeywords km q)" using kw eq by simp
  have "kw \<in> set (qm_matchedKeywords b)" using kw eq by simp
  then show "\<exists>e. map_of km kw = Some e \<and> doc_id (ent_document e) = doc_id (qm_document m)"
    unfolding bucket_props(1)[OF b] in_bucketTexts d by blast
  have "m\<lparr>qm_matchedKeywords := bucketTexts km d (map ng_text (extractNgrams q))\<rparr> = b"
    using bucket_props(1)[OF b] eq by simp
  then show "(doc_id (qm_document m),
          m\<lparr>qm_matchedKeywords := bucketTexts km (doc_id (qm_document m)) (map ng_text (extractNgrams q))\<rparr>)
         \<in> set (documentMatches km q)"
    using b d by simp
qed

lemma match_unique:
  assumes m: "m \<in> set (sr_matches (performSearch km q))"
    and m': "m' \<in> set (sr_matches (performSearch km q))"
    and d: "doc_id (qm_document m) = doc_id (qm_document m')"
  shows "m = m'"
proof -
  from m obtain d1 b1 where b1: "(d1, b1) \<in> set (documentMatches km q)"
    and eq1: "m = b1\<lparr>qm_matchedKeywords :=
              filter (\<lambda>k. k \<in> set (filteredKeywords km q)) (qm_matchedKeywords b1)\<rparr>"
    unfolding in_matches by blast
  from m' obtain d2 b2 where b2: "(d2, b2) \<in> set (documentMatches km q)"
    and eq2: "m' = b2\<lparr>qm_matchedKeywords :=
              filter (\<lambda>k. k \<in> set (filteredKeywords km q)) (qm_matchedKeywords b2)\<rparr>"
    unfolding in_matches by blast
  have "d1 = d2" using bucket_props(2)[OF b1] bucket_props(2)[OF b2] d eq1 eq2 by simp
  then have "b1 = b2" using b1 b2 buckets_distinct[of km q] by (metis eq_key_imp_eq_value)
  then show ?thesis using eq1 eq2 by simp
qed

lemma match_document:
  assumes m: "m \<in> set (sr_matches (performSearch km q))" and kw: "kw \<in> set (qm_matchedKeywords m)"
    and e: "map_of km kw = Some e" and u: "uniqueDocIds km"
  shows "qm_document m = ent_document e"
proof -
  from match_keyword_props(2)[OF m kw] e
  have id: "doc_id (ent_document e) = doc_id (qm_document m)" by simp
  from match_keyword_props(3)[OF m kw] obtain b where
    b: "(doc_id (qm_document m), b) \<in> set (documentMatches km q)"
    and bd: "qm_document b = qm_document m" by force
  from bucket_props(3)[OF b] obtain t e' where
    e': "map_of km t = Some e'" "qm_document b = ent_document e'"
    unfolding hitOf_def by blast
  have "e \<in> snd ` set km" "e' \<in> snd ` set km"
    using e e'(1) by (force dest: map_of_SomeD)+
  moreover have "doc_id (ent_document e) = doc_id (ent_document e')"
    using id bd e'(2) by simp
  ultimately have "ent_document e = ent_document e'"
    using u unfolding uniqueDocIds_def by blast
  then show ?thesis using bd e'(2) by simp
qed

subsection \<open>The keyword map\<close>

lemma setAll_Nil [simp]: "setAll [] km = km"
  by (simp add: setAll_def)

lemma setAll_Cons [simp]: "setAll (p # ps) km = setAll ps (Map_set (fst p) (snd p) km)"
  by (simp add: setAll_def)

lemma setAll_append [simp]: "setAll (ps @ qs) km = setAll qs (setAll ps km)"
  by (simp add: setAll_def)

lemma addKeywords_setAll:
  "addKeywords cat doc kws km =
     setAll (filter (\<lambda>p. fst p \<noteq> [])
       (map (\<lambda>keyword. (trim (toLowerCase keyword),
           \<lparr>ent_document = doc, ent_category = cat_category cat, ent_link = cat_link cat\<rparr>)) kws)) km"
  by (induction kws arbitrary: km) (auto simp: Let_def)

lemma addDocuments_setAll:
  "addDocuments cat docs km =
     setAll (filter (\<lambda>p. fst p \<noteq> [])
       (map (\<lambda>p. (trim (toLowerCase (fst p)), snd p))
         (concat (map (\<lambda>doc. map (\<lambda>keyword. (keyword,
               \<lparr>ent_document = doc, ent_category = cat_category cat, ent_link = cat_link cat\<rparr>))
            (doc_keywords doc)) docs)))) km"
  by (induction docs arbitrary: km) (auto simp: addKeywords_setAll o_def)

lemma addCategories_setAll:
  "addCategories idx km = setAll (normalizedOccurrences idx) km"
  by (induction idx arbitrary: km)
     (auto simp: addDocuments_setAll normalizedOccurrences_def keywordOccurrences_def)

lemma loadIndex_setAll: "loadIndex idx = setAll (normalizedOccurrences idx) []"
  by (simp add: loadIndex_def addCategories_setAll)

lemma map_of_setAll: "map_of (setAll ps km) = map_of km ++ map_of (rev ps)"
proof (induction ps arbitrary: km)
  case Nil
  show ?case by simp
next
  case (Cons p ps)
  have "map_of (setAll (p # ps) km) = (map_of km)(fst p \<mapsto> snd p) ++ map_of (rev ps)"
    by (simp only: setAll_Cons Cons.IH Map_set_def update_conv')
  also have "\<dots> = map_of km ++ map_of (rev (p # ps))"
    by (cases p) (auto simp: fun_eq_iff map_add_def split: option.splits)
  finally show ?case .
qed

lemma distinct_setAll: "distinct (map fst km) \<Longrightarrow> distinct (map fst (setAll ps km))"
  by (induction ps arbitrary: km) (auto simp: Map_set_def distinct_update)

lemma keys_setAll: "fst ` set (setAll ps km) = fst ` set km \<union> fst ` set ps"
  by (induction ps arbitrary: km) (auto simp: Map_set_def dom_update)

lemma length_update_le: "length (AList.update k v m) \<le> Suc (length m)"
  by (induction m) auto

lemma length_setAll: "length (setAll ps km) \<le> length km + length ps"
proof (induction ps arbitrary: km)
  case Nil
  show ?case by simp
next
  case (Cons p ps)
  have "length (Map_set (fst p) (snd p) km) \<le> Suc (length km)"
    by (simp add: Map_set_def length_update_le)
  with Cons.IH[of "Map_set (fst p) (snd p) km"] show ?case by simp
qed

lemma setAll_last_wins:
  assumes "ps = pre @ (k, e) # post" "k \<notin> fst ` set post"
  shows "map_of (setAll ps km) k = Some e"
proof -
  have "map_of (rev post) k = None"
    using assms(2) by (simp add: map_of_eq_None_iff)
  then show ?thesis
    unfolding assms(1) by (simp add: map_of_setAll map_add_def Map_set_def update_conv')
qed

lemma loadIndex_distinct: "distinct (map fst (loadIndex idx))"
  by (simp add: loadIndex_setAll distinct_setAll)

lemma loadIndex_entries: "set (loadIndex idx) \<subseteq> set (normalizedOccurrences idx)"
proof
  fix p assume p: "p \<in> set (loadIndex idx)"
  then have "map_of (loadIndex idx) (fst p) = Some (snd p)" using loadIndex_distinct by simp
  then have "map_of (rev (normalizedOccurrences idx)) (fst p) = Some (snd p)"
    by (simp add: loadIndex_setAll map_of_setAll)
  then have "(fst p, snd p) \<in> set (rev (normalizedOccurrences idx))" by (rule map_of_SomeD)
  then show "p \<in> set (normalizedOccurrences idx)" by simp
qed

lemma occurrence_props:
  assumes "(raw, e) \<in> set (keywordOccurrences idx)"
  shows "ent_document e \<in> set (allDocuments idx) \<and> raw \<in> set (doc_keywords (ent_document e))"
  using assms unfolding keywordOccurrences_def allDocuments_def by auto

lemma loadIndex_entry:
  assumes "map_of (loadIndex idx) kw = Some e"
  shows "ent_document e \<in> set (allDocuments idx)
     \<and> kw \<in> (\<lambda>raw. trim (toLowerCase raw)) ` set (doc_keywords (ent_document e))"
proof -
  have "(kw, e) \<in> set (loadIndex idx)" using assms by (rule map_of_SomeD)
  then have "(kw, e) \<in> set (normalizedOccurrences idx)"
    using loadIndex_entries by blast
  then obtain raw where "(raw, e) \<in> set (keywordOccurrences idx)" "kw = trim (toLowerCase raw)"
    unfolding normalizedOccurrences_def by auto
  with occurrence_props[of raw e idx] show ?thesis by blast
qed

lemma loadIndex_uniqueDocIds:
  assumes "distinct (map doc_id (allDocuments idx))"
  shows "uniqueDocIds (loadIndex idx)"
  unfolding uniqueDocIds_def
proof (intro allI impI)
  fix e e'
  assume a: "e \<in> snd ` set (loadIndex idx) \<and> e' \<in> snd ` set (loadIndex idx)
    \<and> doc_id (ent_document e) = doc_id (ent_document e')"
  have d: "distinct (map fst (loadIndex idx))"
    by (rule loadIndex_distinct)
  from a obtain k k' where "(k, e) \<in> set (loadIndex idx)" "(k', e') \<in> set (loadIndex idx)" by force
  then have "map_of (loadIndex idx) k = Some e" "map_of (loadIndex idx) k' = Some e'"
    using d by simp_all
  then have "ent_document e \<in> set (allDocuments idx)" "ent_document e' \<in> set (allDocuments idx)"
    using loadIndex_entry by blast+
  with assms a show "ent_document e = ent_document e'"
    by (simp add: distinct_map inj_on_def)
qed

subsection \<open>The subset filter\<close>

lemma isSubset_iff:
  "isSubset kept k \<longleftrightarrow> (\<exists>e. e \<in> set kept \<and> e \<noteq> k \<and> str_includes e k)"
  by (auto simp: isSubset_def list_ex_iff)

lemma isSubset_mono: "isSubset kept k \<Longrightarrow> set kept \<subseteq> set kept' \<Longrightarrow> isSubset kept' k"
  unfolding isSubset_iff by blast

lemma str_includes_trans: "str_includes a b \<Longrightarrow> str_includes b c \<Longrightarrow> str_includes a c"
  unfolding str_includes_def by (rule sublist_order.order.trans)

lemma str_includes_antisym: "str_includes a b \<Longrightarrow> str_includes b a \<Longrightarrow> a = b"
  unfolding str_includes_def by (rule sublist_order.order.antisym)

lemma filterLoop_append:
  "filterLoop (xs @ ys) kept = filterLoop ys (filterLoop xs kept)"
  by (induction xs arbitrary: kept) auto

lemma filterLoop_covers:
  "x \<in> set xs \<Longrightarrow> x \<in> set (filterLoop xs kept) \<or> isSubset (filterLoop xs kept) x"
proof (induction xs arbitrary: kept)
  case Nil
  then show ?case by simp
next
  case (Cons y ys)
  let ?kept' = "if \<not> isSubset kept y then Set_add y kept else kept"
  show ?case
  proof (cases "x = y")
    case True
    have "x \<in> set ?kept' \<or> isSubset ?kept' x" using True by simp
    then show ?thesis
      using filterLoop_mono[of ?kept' ys] isSubset_mono[of ?kept' x "filterLoop ys ?kept'"]
      by auto
  next
    case False
    then have "x \<in> set ys" using Cons.prems by simp
    from Cons.IH[OF this, of ?kept'] show ?thesis by simp
  qed
qed

lemma filterLoop_drops:
  assumes "sorted_wrt (\<lambda>x y. wordCount y \<le> wordCount x) xs"
    and "b \<notin> set kept" and "str_includes a b" and "a \<noteq> b" and "wordCount b < wordCount a"
    and "a \<in> set xs \<or> a \<in> set kept \<or> isSubset kept a"
  shows "b \<notin> set (filterLoop xs kept)"
  using assms(1,2,6)
proof (induction xs arbitrary: kept)
  case Nil
  then show ?case by simp
next
  case (Cons y ys)
  let ?kept' = "if \<not> isSubset kept y then Set_add y kept else kept"
  have sorted: "sorted_wrt (\<lambda>x y. wordCount y \<le> wordCount x) ys" using Cons.prems(1) by simp
  have dom: "isSubset kept b" if "a \<in> set kept \<or> isSubset kept a" for kept
  proof -
    from that consider "a \<in> set kept" | e where "e \<in> set kept" "e \<noteq> a" "str_includes e a"
      unfolding isSubset_iff by blast
    then show ?thesis
    proof cases
      case 1
      then show ?thesis unfolding isSubset_iff using assms(3,4) by blast
    next
      case 2
      have "str_includes e b" using 2(3) assms(3) by (rule str_includes_trans)
      moreover have "e \<noteq> b"
      proof
        assume "e = b"
        then have "str_includes b a" using 2(3) by simp
        with assms(3) have "a = b" by (rule str_includes_antisym)
        with assms(4) show False by simp
      qed
      ultimately show ?thesis unfolding isSubset_iff using 2(1) by blast
    qed
  qed
  show ?case
  proof (cases "y = b")
    case True
    have "a \<notin> set ys"
    proof
      assume "a \<in> set ys"
      then have "wordCount a \<le> wordCount y" using Cons.prems(1) by simp
      with True assms(5) show False by simp
    qed
    then have c: "a \<in> set kept \<or> isSubset kept a" using Cons.prems(3) True assms(4) by auto
    then have "isSubset kept b" by (rule dom)
    then have k: "?kept' = kept" using True by simp
    from Cons.IH[OF sorted, of kept] Cons.prems(2) c show ?thesis
      using True \<open>isSubset kept b\<close> by simp
  next
    case False
    have nb: "b \<notin> set ?kept'" using False Cons.prems(2) by auto
    have "a \<in> set ys \<or> a \<in> set ?kept' \<or> isSubset ?kept' a"
    proof -
      from Cons.prems(3) consider "a = y" | "a \<in> set ys" | "a \<in> set kept \<or> isSubset kept a"
        by auto
      then show ?thesis
      proof cases
        case 1
        then show ?thesis by auto
      next
        case 2
        then show ?thesis by simp
      next
        case 3
        moreover have "set kept \<subseteq> set ?kept'" by auto
        ultimately show ?thesis using isSubset_mono[of kept a ?kept'] by auto
      qed
    qed
    from Cons.IH[OF sorted nb this] show ?thesis by simp
  qed
qed

lemma sortedKeywords_desc:
  "sorted_wrt (\<lambda>x y. wordCount y \<le> wordCount x) (sortedKeywords ms)"
proof -
  have "sorted (map (\<lambda>a. - int (wordCount a)) (sortedKeywords ms))"
    unfolding sortedKeywords_def by (rule sorted_sort_key)
  then show ?thesis by (simp add: sorted_map)
qed

lemma sortedKeywords_stable:
  "filter (\<lambda>k. wordCount k = n) (sortedKeywords ms) = filter (\<lambda>k. wordCount k = n) ms"
proof -
  have "filter (\<lambda>k. - int (wordCount k) = - int n) (sortedKeywords ms)
      = filter (\<lambda>k. - int (wordCount k) = - int n) ms"
    unfolding sortedKeywords_def by (rule sort_key_stable)
  then show ?thesis by simp
qed

lemma filterSubsets_prefix:
  assumes "distinct ms" and "sortedKeywords ms = pre @ k # post"
  shows "k \<in> set (filterSubsets ms) \<longleftrightarrow> \<not> isSubset (filterLoop pre []) k"
proof -
  have "distinct (sortedKeywords ms)" using assms(1) by (simp add: sortedKeywords_def)
  then have k: "k \<notin> set pre" "k \<notin> set post" unfolding assms(2) by auto
  let ?kept = "filterLoop pre []"
  let ?kept' = "if \<not> isSubset ?kept k then Set_add k ?kept else ?kept"
  have r: "filterSubsets ms = filterLoop post ?kept'"
    by (simp add: filterSubsets_def assms(2) filterLoop_append)
  have np: "k \<notin> set ?kept" using filterLoop_subset[of pre "[]"] k(1) by auto
  show ?thesis
  proof (cases "isSubset ?kept k")
    case True
    then have "set (filterSubsets ms) \<subseteq> set ?kept \<union> set post"
      unfolding r using filterLoop_subset[of post ?kept] by simp
    with np k(2) True show ?thesis by auto
  next
    case False
    then have "k \<in> set ?kept'" by simp
    then have "k \<in> set (filterSubsets ms)" unfolding r using filterLoop_mono[of ?kept' post] by blast
    with False show ?thesis by simp
  qed
qed

lemma kept_drops:
  assumes "a \<in> set (matchedKeywords km q)" "str_includes a b" "a \<noteq> b" "wordCount b < wordCount a"
  shows "b \<notin> set (sr_matchedKeywords (performSearch km q))"
proof -
  have "b \<notin> set (filterLoop (sortedKeywords (matchedKeywords km q)) [])"
    by (rule filterLoop_drops[OF sortedKeywords_desc _ assms(2,3,4)]) (use assms(1) in auto)
  then show ?thesis
    by (simp add: performSearch_def filteredKeywords_def filterSubsets_def matchedKeywords_def)
qed

lemma kept_undominated:
  assumes "a \<in> set (matchedKeywords km q)" "\<not> isSubset (matchedKeywords km q) a"
  shows "a \<in> set (sr_matchedKeywords (performSearch km q))"
proof -
  let ?xs = "sortedKeywords (matchedKeywords km q)"
  have "a \<in> set ?xs" using assms(1) by simp
  from filterLoop_covers[OF this, of "[]"]
  have "a \<in> set (filterLoop ?xs []) \<or> isSubset (filterLoop ?xs []) a" .
  moreover have "set (filterLoop ?xs []) \<subseteq> set (matchedKeywords km q)"
    using filterLoop_subset[of ?xs "[]"] by simp
  ultimately have "a \<in> set (filterLoop ?xs [])"
    using assms(2) isSubset_mono by blast
  then show ?thesis
    by (simp add: performSearch_def filteredKeywords_def filterSubsets_def matchedKeywords_def)
qed

lemma llm_facts:
  "str_includes ''large language model'' ''language model''"
  "str_includes ''large language model'' ''language''"
  "wordCount ''large language model'' = 3"
  "wordCount ''language model'' = 2"
  "wordCount ''language'' = 1"
  by code_simp+

subsection \<open>Normalisation and n-grams\<close>

lemma isSpace_space [simp]: "isSpace (CHR '' '')"
  by (simp add: isSpace_def)

lemma dropWhile_all_Nil: "\<forall>x\<in>set xs. P x \<Longrightarrow> dropWhile P xs = []"
  by simp

lemma dropWhile_append_cases:
  "dropWhile P (ys @ zs) = (if dropWhile P ys = [] then dropWhile P zs else dropWhile P ys @ zs)"
  by (induction ys) auto

lemma collapse_after_dropWhile:
  "dropWhile isSpace (collapseSpaces (dropWhile isSpace cs)) = collapseSpaces (dropWhile isSpace cs)"
proof (cases "dropWhile isSpace cs")
  case Nil
  show ?thesis unfolding Nil by simp
next
  case (Cons d ds)
  then have "\<not> isSpace d" using hd_dropWhile[of isSpace cs] by auto
  then show ?thesis unfolding Cons by simp
qed

lemma dropWhile_collapseSpaces:
  "dropWhile isSpace (collapseSpaces z) = collapseSpaces (dropWhile isSpace z)"
  by (cases z) (simp_all add: collapse_after_dropWhile)

lemma collapseSpaces_trailing:
  "\<forall>c\<in>set r. isSpace c \<Longrightarrow>
     dropWhile isSpace (rev (collapseSpaces (x @ r))) = dropWhile isSpace (rev (collapseSpaces x))"
proof (induction x rule: collapseSpaces.induct)
  case 1
  show ?case
  proof (cases r)
    case Nil
    then show ?thesis by simp
  next
    case (Cons a as)
    then have "isSpace a" and "\<forall>x\<in>set as. isSpace x" using "1.prems" by simp_all
    then show ?thesis unfolding Cons by (simp add: dropWhile_all_Nil)
  qed
next
  case (2 c cs)
  show ?case
  proof (cases "isSpace c")
    case True
    show ?thesis
    proof (cases "dropWhile isSpace cs = []")
      case e: True
      then have "\<forall>x\<in>set cs. isSpace x" by simp
      then show ?thesis using True "2.prems" by (simp add: dropWhile_all_Nil)
    next
      case ne: False
      then have eq: "dropWhile isSpace (cs @ r) = dropWhile isSpace cs @ r"
        by (auto simp: dropWhile_append_cases)
      have A: "collapseSpaces ((c # cs) @ r)
          = CHR '' '' # collapseSpaces (dropWhile isSpace cs @ r)"
        using True eq by simp
      have B: "collapseSpaces (c # cs) = CHR '' '' # collapseSpaces (dropWhile isSpace cs)"
        using True by simp
      show ?thesis
        unfolding A B by (simp only: rev.simps dropWhile_append_cases "2.IH"(1)[OF True "2.prems"])
    qed
  next
    case False
    have A: "collapseSpaces ((c # cs) @ r) = c # collapseSpaces (cs @ r)"
      using False by simp
    have B: "collapseSpaces (c # cs) = c # collapseSpaces cs"
      using False by simp
    show ?thesis
      unfolding A B by (simp only: rev.simps dropWhile_append_cases "2.IH"(2)[OF False "2.prems"])
  qed
qed

lemma trim_collapse_padding:
  assumes l: "\<forall>c\<in>set l. isSpace c" and r: "\<forall>c\<in>set r. isSpace c"
  shows "trim (collapseSpaces (l @ x @ r)) = trim (collapseSpaces x)"
proof -
  have "dropWhile isSpace (l @ x @ r) = dropWhile isSpace (x @ r)"
    using l by (simp add: dropWhile_append_cases)
  then have a: "trim (collapseSpaces (l @ x @ r))
      = rev (dropWhile isSpace (rev (collapseSpaces (dropWhile isSpace (x @ r)))))"
    by (simp only: trim_def dropWhile_collapseSpaces)
  have b: "trim (collapseSpaces x)
      = rev (dropWhile isSpace (rev (collapseSpaces (dropWhile isSpace x))))"
    by (simp only: trim_def dropWhile_collapseSpaces)
  show ?thesis
  proof (cases "dropWhile isSpace x = []")
    case True
    have "dropWhile isSpace (x @ r) = []" using True r by simp
    then show ?thesis unfolding a b True by (simp only:)
  next
    case False
    then have "dropWhile isSpace (x @ r) = dropWhile isSpace x @ r"
      by (simp only: dropWhile_append_cases if_False)
    then show ?thesis
      unfolding a b by (simp only: collapseSpaces_trailing[OF r])
  qed
qed

lemma trim_decompose:
  "\<exists>l r. s = l @ trim s @ r \<and> (\<forall>c\<in>set l. isSpace c) \<and> (\<forall>c\<in>set r. isSpace c)"
proof -
  let ?u = "dropWhile isSpace s"
  have "rev (trim s @ rev (takeWhile isSpace (rev ?u))) = rev ?u"
    by (simp add: trim_def)
  then have "trim s @ rev (takeWhile isSpace (rev ?u)) = ?u"
    by (simp only: rev_is_rev_conv)
  then have "s = takeWhile isSpace s @ trim s @ rev (takeWhile isSpace (rev ?u))"
    by (simp only: takeWhile_dropWhile_id)
  moreover have "\<forall>c\<in>set (takeWhile isSpace s). isSpace c" by (auto dest: set_takeWhileD)
  moreover have "\<forall>c\<in>set (rev (takeWhile isSpace (rev ?u))). isSpace c"
    by (auto dest: set_takeWhileD)
  ultimately show ?thesis by blast
qed

lemma replacePunct_spaces:
  "\<forall>c\<in>set l. isSpace c \<Longrightarrow> \<forall>c\<in>set (replacePunct l). isSpace c"
  by (auto simp: replacePunct_def)

lemma replacePunct_append: "replacePunct (a @ b) = replacePunct a @ replacePunct b"
  by (simp add: replacePunct_def)

lemma normalize_without_first_trim:
  "trim (collapseSpaces (replacePunct (trim s))) = trim (collapseSpaces (replacePunct s))"
proof -
  from trim_decompose[of s] obtain l r where
    s: "s = l @ trim s @ r" and l: "\<forall>c\<in>set l. isSpace c" and r: "\<forall>c\<in>set r. isSpace c" by blast
  have "replacePunct s = replacePunct l @ replacePunct (trim s) @ replacePunct r"
    by (subst s) (simp only: replacePunct_append)
  then show ?thesis
    using trim_collapse_padding[OF replacePunct_spaces[OF l] replacePunct_spaces[OF r]] by simp
qed

lemma char_of_eq_iff: "n < 256 \<Longrightarrow> char_of (n :: nat) = c \<longleftrightarrow> n = of_char c"
proof
  assume n: "n < 256" and "char_of n = c"
  then have "of_char c = (of_char (char_of n) :: nat)" by simp
  also have "\<dots> = n mod 256" by (rule of_char_of)
  finally show "n = of_char c" using n by simp
next
  assume "n = of_char c"
  then show "char_of n = c" by simp
qed

lemma in_map_char_of:
  "\<forall>n\<in>set ns. n < 256 \<Longrightarrow> c \<in> set (map char_of ns) \<longleftrightarrow> (of_char c :: nat) \<in> set ns"
  by (induction ns) (auto simp: char_of_eq_iff)

lemma map_of_zip_char_of:
  "\<forall>n\<in>set ns. n < 256 \<Longrightarrow>
     map_of (zip (map char_of ns) (map (\<lambda>n. char_of (n + 32)) ns)) c
       = (if (of_char c :: nat) \<in> set ns then Some (char_of (of_char c + 32 :: nat)) else None)"
  by (induction ns) (auto simp: char_of_eq_iff)

lemma spec_upperCase_codes:
  "spec_upperCase = map char_of ([65 ..< 91] @ [192 ..< 215] @ [216 ..< 223] :: nat list)"
  by code_simp

lemma spec_lowerCase_codes:
  "spec_lowerCase
     = map (\<lambda>n. char_of (n + 32)) ([65 ..< 91] @ [192 ..< 215] @ [216 ..< 223] :: nat list)"
  by code_simp

lemma spec_alnum_codes: "spec_alnum = map char_of ([97 ..< 123] @ [48 ..< 58] :: nat list)"
  by code_simp

lemma toLowerChar_spec:
  "toLowerChar c = (case map_of (zip spec_upperCase spec_lowerCase) c of None \<Rightarrow> c | Some l \<Rightarrow> l)"
proof -
  define ns :: "nat list" where "ns = [65 ..< 91] @ [192 ..< 215] @ [216 ..< 223]"
  define n :: nat where "n = of_char c"
  have b: "\<forall>n\<in>set ns. n < 256" by (auto simp: ns_def)
  have m: "n \<in> set ns \<longleftrightarrow> (65 \<le> n \<and> n \<le> 90) \<or> (192 \<le> n \<and> n \<le> 214) \<or> (216 \<le> n \<and> n \<le> 222)"
    unfolding ns_def set_append set_upt by auto
  have up: "spec_upperCase = map char_of ns" unfolding ns_def by (rule spec_upperCase_codes)
  have lo: "spec_lowerCase = map (\<lambda>n. char_of (n + 32)) ns"
    unfolding ns_def by (rule spec_lowerCase_codes)
  have "map_of (zip spec_upperCase spec_lowerCase) c
      = (if n \<in> set ns then Some (char_of (n + 32)) else None)"
    unfolding up lo n_def by (rule map_of_zip_char_of[OF b])
  then show ?thesis
    unfolding toLowerChar_def Let_def n_def[symmetric] m by simp
qed

lemma toLowerCase_spec: "toLowerCase s = spec_lower s"
  by (simp add: toLowerCase_def spec_lower_def toLowerChar_spec)

lemma isSpace_spec: "isSpace c \<longleftrightarrow> c \<in> set spec_whitespace"
  by (auto simp: isSpace_def spec_whitespace_def)

lemma isWordChar_spec: "isWordChar c \<longleftrightarrow> c \<in> set spec_alnum \<or> c \<in> set spec_whitespace"
proof -
  define ns :: "nat list" where "ns = [97 ..< 123] @ [48 ..< 58]"
  define n :: nat where "n = of_char c"
  have b: "\<forall>n\<in>set ns. n < 256" by (auto simp: ns_def)
  have m: "n \<in> set ns \<longleftrightarrow> (97 \<le> n \<and> n \<le> 122) \<or> (48 \<le> n \<and> n \<le> 57)"
    unfolding ns_def set_append set_upt by auto
  have "spec_alnum = map char_of ns" unfolding ns_def by (rule spec_alnum_codes)
  then have "c \<in> set spec_alnum \<longleftrightarrow> n \<in> set ns"
    unfolding n_def using in_map_char_of[OF b] by simp
  then show ?thesis
    unfolding isWordChar_def Let_def n_def[symmetric] m isSpace_spec by simp
qed

lemma replacePunct_spec: "replacePunct s = spec_replace s"
  by (simp add: replacePunct_def spec_replace_def isWordChar_spec)

lemma spec_collapse_space:
  "c \<in> set spec_whitespace \<Longrightarrow>
     spec_collapse (c # cs) = CHR '' '' # spec_collapse (dropWhile isSpace cs)"
proof (induction cs arbitrary: c)
  case Nil
  then show ?case by simp
next
  case (Cons d ds)
  then show ?case by (cases "d \<in> set spec_whitespace") (simp_all add: isSpace_spec)
qed

lemma spec_collapse_other:
  "c \<notin> set spec_whitespace \<Longrightarrow> spec_collapse (c # cs) = c # spec_collapse cs"
  by (cases cs) simp_all

lemma collapseSpaces_spec: "collapseSpaces s = spec_collapse s"
  by (induction s rule: collapseSpaces.induct)
     (simp_all add: spec_collapse_space spec_collapse_other isSpace_spec del: spec_collapse.simps(3))

lemma spec_dropStart_eq: "spec_dropStart s = dropWhile isSpace s"
  by (induction s) (simp_all add: isSpace_spec)

lemma spec_dropEnd_eq: "spec_dropEnd s = rev (dropWhile isSpace (rev s))"
proof (induction s)
  case Nil
  show ?case by (simp add: spec_dropEnd_def)
next
  case (Cons c cs)
  have step: "spec_dropEnd (c # cs)
      = (if isSpace c \<and> spec_dropEnd cs = [] then [] else c # spec_dropEnd cs)"
    by (simp add: spec_dropEnd_def isSpace_spec)
  show ?case
  proof (cases "dropWhile isSpace (rev cs) = []")
    case True
    have e: "spec_dropEnd cs = []" unfolding Cons.IH True by simp
    have "dropWhile isSpace (rev (c # cs)) = dropWhile isSpace [c]"
      unfolding rev.simps dropWhile_append_cases True by simp
    then have "rev (dropWhile isSpace (rev (c # cs))) = (if isSpace c then [] else [c])"
      by simp
    then show ?thesis unfolding step e by simp
  next
    case False
    have ne: "spec_dropEnd cs \<noteq> []" unfolding Cons.IH using False by simp
    have "dropWhile isSpace (rev (c # cs)) = dropWhile isSpace (rev cs) @ [c]"
      unfolding rev.simps dropWhile_append_cases using False by simp
    then have "rev (dropWhile isSpace (rev (c # cs))) = c # spec_dropEnd cs"
      unfolding Cons.IH by simp
    then show ?thesis unfolding step using ne by simp
  qed
qed

lemma trim_spec: "trim s = spec_trim s"
  by (simp add: trim_def spec_trim_def spec_dropStart_eq spec_dropEnd_eq)

lemma str_split_single: "sep \<notin> set s \<Longrightarrow> str_split sep s = [s]"
  by (induction s) auto

lemma str_split_at: "sep \<notin> set a \<Longrightarrow> str_split sep (a @ sep # b) = a # str_split sep b"
  by (induction a) auto

lemma str_split_spec: "str_split (CHR '' '') s = spec_split s"
proof (induction s rule: spec_split.induct)
  case (1 s)
  show ?case
  proof (cases "CHR '' '' \<in> set s")
    case True
    let ?a = "takeWhile (\<lambda>c. c \<noteq> CHR '' '') s"
    let ?r = "dropWhile (\<lambda>c. c \<noteq> CHR '' '') s"
    from True have "?r \<noteq> []" by auto
    then have "hd ?r = CHR '' ''" using hd_dropWhile[of "\<lambda>c. c \<noteq> CHR '' ''" s] by simp
    with \<open>?r \<noteq> []\<close> have r: "?r = CHR '' '' # tl ?r" by (cases ?r) simp_all
    have "s = ?a @ CHR '' '' # tl ?r" using r takeWhile_dropWhile_id[of "\<lambda>c. c \<noteq> CHR '' ''" s]
      by simp
    moreover have "CHR '' '' \<notin> set ?a" by (auto dest: set_takeWhileD)
    ultimately have "str_split (CHR '' '') s = ?a # str_split (CHR '' '') (tl ?r)"
      using str_split_at[of "CHR '' ''" ?a "tl ?r"] by simp
    also have "\<dots> = ?a # spec_split (tl ?r)" using "1.IH"[OF True] by simp
    also have "\<dots> = spec_split s" using True by (subst (2) spec_split.simps) simp
    finally show ?thesis .
  next
    case False
    then show ?thesis by (subst spec_split.simps) (simp add: str_split_single)
  qed
qed

lemma join_spec: "join '' '' ws = spec_phrase ws"
  by (induction "'' ''" ws rule: join.induct) simp_all

lemma questionWords_spec: "questionWords q = spec_words q"
  by (simp add: questionWords_def spec_words_def Let_def normalize_without_first_trim
      toLowerCase_spec[symmetric] replacePunct_spec[symmetric] collapseSpaces_spec[symmetric]
      trim_spec[symmetric] str_split_spec[symmetric])

lemma pushWindows_eq:
  "pushWindows n words i acc =
     acc @ map (\<lambda>j. \<lparr>ng_text = join '' '' (take n (drop j words)), ng_length = n\<rparr>)
              [i ..< Suc (length words) - n]"
proof (induction n words i acc rule: pushWindows.induct)
  case (1 n words i nGrams)
  show ?case
  proof (cases "int i \<le> int (length words) - int n")
    case True
    then have lt: "i < Suc (length words) - n" by linarith
    have "pushWindows n words i nGrams =
        pushWindows n words (Suc i)
          (nGrams @ [\<lparr>ng_text = join '' '' (slice words i (i + n)), ng_length = n\<rparr>])"
      using True by (subst pushWindows.simps) simp
    also have "\<dots> = nGrams @ map (\<lambda>j. \<lparr>ng_text = join '' '' (take n (drop j words)), ng_length = n\<rparr>)
              [i ..< Suc (length words) - n]"
      using "1.IH"[OF True] lt by (simp add: upt_conv_Cons slice_def)
    finally show ?thesis .
  next
    case False
    then have "Suc (length words) - n \<le> i" by linarith
    with False show ?thesis by (subst pushWindows.simps) simp
  qed
qed

lemma pushUnigrams_eq:
  "pushUnigrams ws acc =
     acc @ map (\<lambda>w. \<lparr>ng_text = w, ng_length = 1\<rparr>)
              (filter (\<lambda>w. 2 \<le> length w \<and> w \<notin> set stopWords) ws)"
  by (induction ws arbitrary: acc) auto

lemma windows_by_index:
  "0 < n \<Longrightarrow> map (\<lambda>j. take n (drop j ws)) [0 ..< Suc (length ws) - n] = spec_windows n ws"
proof (induction ws)
  case Nil
  then show ?case by simp
next
  case (Cons w ws)
  show ?case
  proof (cases "n \<le> Suc (length ws)")
    case True
    then have "[0 ..< Suc (length (w # ws)) - n] = 0 # map Suc [0 ..< Suc (length ws) - n]"
      using Cons.prems by (simp add: upt_conv_Cons map_Suc_upt Suc_diff_le)
    then show ?thesis using True Cons.IH[OF Cons.prems] by (simp add: o_def)
  next
    case False
    then show ?thesis by simp
  qed
qed

lemma stopWords_spec: "set stopWords = spec_stopWords"
  by (simp add: stopWords_def spec_stopWords_def)

subsection \<open>Assembling the context\<close>

lemma find_fallback:
  "find (\<lambda>c. cat_category c = ''AI Concepts'') idx = Some cat \<longleftrightarrow> fallbackCategory idx cat"
proof
  assume "find (\<lambda>c. cat_category c = ''AI Concepts'') idx = Some cat"
  then show "fallbackCategory idx cat"
  proof (induction idx)
    case Nil
    then show ?case by simp
  next
    case (Cons c cs)
    show ?case
    proof (cases "cat_category c = ''AI Concepts''")
      case True
      with Cons.prems have "c = cat" by simp
      with True show ?thesis unfolding fallbackCategory_def
        by (intro exI[of _ "[]"] exI[of _ cs]) auto
    next
      case False
      with Cons have "fallbackCategory cs cat" by simp
      then obtain pre post where "cs = pre @ cat # post" "cat_category cat = ''AI Concepts''"
        "\<forall>c\<in>set pre. cat_category c \<noteq> ''AI Concepts''"
        unfolding fallbackCategory_def by blast
      with False show ?thesis unfolding fallbackCategory_def
        by (intro exI[of _ "c # pre"] exI[of _ post]) auto
    qed
  qed
next
  assume "fallbackCategory idx cat"
  then obtain pre post where idx: "idx = pre @ cat # post" and c: "cat_category cat = ''AI Concepts''"
    and pre: "\<forall>c\<in>set pre. cat_category c \<noteq> ''AI Concepts''"
    unfolding fallbackCategory_def by blast
  from pre c show "find (\<lambda>c. cat_category c = ''AI Concepts'') idx = Some cat"
    unfolding idx by (induction pre) auto
qed

lemma find_no_fallback:
  "find (\<lambda>c. cat_category c = ''AI Concepts'') idx = None
     \<longleftrightarrow> (\<forall>c\<in>set idx. cat_category c \<noteq> ''AI Concepts'')"
  by (auto simp: find_None_iff)

lemma set_spec_dedup [simp]: "set (spec_dedup xs) = set xs"
  by (induction xs) auto

lemma foldl_Set_add:
  "foldl (\<lambda>s x. Set_add x s) s xs = s @ filter (\<lambda>y. y \<notin> set s) (spec_dedup xs)"
proof (induction xs arbitrary: s)
  case Nil
  show ?case by simp
next
  case (Cons x xs)
  show ?case
  proof (cases "x \<in> set s")
    case True
    then have "filter (\<lambda>y. y \<notin> set s) (removeAll x (spec_dedup xs))
        = filter (\<lambda>y. y \<notin> set s) (spec_dedup xs)"
      by (auto simp: removeAll_filter_not_eq intro: filter_cong)
    moreover have "Set_add x s = s" using True by (simp add: Set_add_def)
    ultimately show ?thesis using True by (simp add: Cons.IH)
  next
    case False
    have "filter (\<lambda>y. y \<notin> set (s @ [x])) (spec_dedup xs)
        = filter (\<lambda>y. y \<notin> set s) (removeAll x (spec_dedup xs))"
      by (auto simp: removeAll_filter_not_eq intro: filter_cong)
    moreover have "Set_add x s = s @ [x]" using False by (simp add: Set_add_def)
    ultimately show ?thesis using False by (simp add: Cons.IH)
  qed
qed

lemma Set_of_spec: "Set_of xs = spec_dedup xs"
  by (simp add: Set_of_def foldl_Set_add)

lemma removeAll_spec_dedup: "removeAll x (spec_dedup xs) = spec_dedup (removeAll x xs)"
proof (induction xs)
  case Nil
  show ?case by simp
next
  case (Cons y ys)
  show ?case
  proof (cases "x = y")
    case True
    then show ?thesis using Cons.IH by simp
  next
    case False
    have "removeAll x (removeAll y (spec_dedup ys)) = removeAll y (removeAll x (spec_dedup ys))"
      by (simp add: removeAll_filter_not_eq conj_commute)
    with False show ?thesis using Cons.IH by simp
  qed
qed

lemma aligned_dedup:
  "aligned ms \<Longrightarrow>
     \<exists>ms'. set ms' \<subseteq> set ms \<and> spec_dedup (map qm_category ms) = map qm_category ms'
        \<and> spec_dedup (map qm_link ms) = map qm_link ms'"
proof (induction ms rule: length_induct)
  case (1 ms)
  show ?case
  proof (cases ms)
    case Nil
    then show ?thesis by simp
  next
    case (Cons m rest)
    let ?rest' = "filter (\<lambda>m'. qm_category m' \<noteq> qm_category m) rest"
    have same: "filter (\<lambda>m'. qm_link m' \<noteq> qm_link m) rest = ?rest'"
      using "1.prems" unfolding aligned_def Cons by (auto intro: filter_cong)
    have "length ?rest' < length ms" unfolding Cons by (simp add: le_imp_less_Suc)
    moreover have "aligned ?rest'" using "1.prems" unfolding aligned_def Cons by auto
    ultimately obtain ms' where ms': "set ms' \<subseteq> set ?rest'"
      "spec_dedup (map qm_category ?rest') = map qm_category ms'"
      "spec_dedup (map qm_link ?rest') = map qm_link ms'"
      using "1.IH" by blast
    have c: "removeAll (qm_category m) (map qm_category rest) = map qm_category ?rest'"
      by (simp add: removeAll_filter_not_eq filter_map o_def eq_commute)
    have l: "removeAll (qm_link m) (map qm_link rest) = map qm_link ?rest'"
      unfolding same[symmetric] by (simp add: removeAll_filter_not_eq filter_map o_def eq_commute)
    have "spec_dedup (map qm_category ms) = map qm_category (m # ms')"
      unfolding Cons by (simp add: removeAll_spec_dedup c ms'(2))
    moreover have "spec_dedup (map qm_link ms) = map qm_link (m # ms')"
      unfolding Cons by (simp add: removeAll_spec_dedup l ms'(3))
    moreover have "set (m # ms') \<subseteq> set ms" using ms'(1) unfolding Cons by auto
    ultimately show ?thesis by blast
  qed
qed

subsection \<open>The copy in the computing-history app\<close>

lemma ch_questionWords_eq: "ch_questionWords q = questionWords q"
  by (simp add: ch_questionWords_def questionWords_def)

lemma ch_pushWindows_eq: "ch_pushWindows n ws i acc = pushWindows n ws i acc"
proof (induction n ws i acc rule: pushWindows.induct)
  case (1 n words i nGrams)
  show ?case
  proof (cases "int i \<le> int (length words) - int n")
    case True
    with "1.IH" show ?thesis
      by (subst ch_pushWindows.simps, subst pushWindows.simps) simp
  next
    case False
    then show ?thesis
      by (subst ch_pushWindows.simps, subst pushWindows.simps) simp
  qed
qed

lemma ch_pushUnigrams_eq: "ch_pushUnigrams ws acc = pushUnigrams ws acc"
  by (induction ws arbitrary: acc) (simp_all add: ch_stopWords_def stopWords_def)

lemma ch_extractNgrams_eq: "ch_extractNgrams q = extractNgrams q"
  by (simp add: ch_extractNgrams_def extractNgrams_def ch_questionWords_eq ch_pushWindows_eq
      ch_pushUnigrams_eq)

lemma ch_matchStep_eq: "ch_matchStep km st ng = matchStep km st ng"
  by (simp add: ch_matchStep_def matchStep_def)

lemma ch_matchNgrams_eq: "ch_matchNgrams km ngs st = matchNgrams km ngs st"
  by (induction ngs arbitrary: st) (simp_all add: ch_matchStep_eq)

lemma ch_sortedKeywords_eq: "ch_sortedKeywords ms = sortedKeywords ms"
  by (simp add: ch_sortedKeywords_def sortedKeywords_def wordCount_def)

lemma ch_filterLoop_eq: "ch_filterLoop xs kept = filterLoop xs kept"
  by (induction xs arbitrary: kept) (simp_all add: isSubset_def)

lemma ch_rebuild_eq: "ch_rebuild kept dm acc = rebuild kept dm acc"
  by (induction dm arbitrary: acc) (auto simp: Let_def)

lemma ch_performSearch_eq: "ch_performSearch km q = performSearch km q"
  by (simp add: ch_performSearch_def performSearch_def Let_def ch_extractNgrams_eq
      ch_matchNgrams_eq ch_sortedKeywords_eq ch_filterLoop_eq ch_rebuild_eq filteredKeywords_def
      filterSubsets_def matchedKeywords_def documentMatches_def matchPhase_def)

lemma ch_searchContext_eq: "ch_searchContext km idx q = searchContext km idx q"
  by (auto simp: ch_searchContext_def searchContext_def Let_def ch_performSearch_eq assemble_def
      fallbackResult_def emptyResult_def contextPart_def[abs_def] newline_def
      split: option.splits list.splits)

subsection \<open>The concrete indexes, evaluated\<close>

lemma eval_llm_search:
  "performSearch (loadIndex llmIndex) llmQuestion =
     \<lparr>sr_matches = [\<lparr>qm_document = llmDocA, qm_category = ''AI Concepts'',
                      qm_link = ''https://example.com/ai'',
                      qm_matchedKeywords = [''large language models'']\<rparr>],
      sr_matchedKeywords = [''large language models'']\<rparr>"
  by code_simp

lemma eval_llm_matched:
  "matchedKeywords (loadIndex llmIndex) llmQuestion =
     [''large language models'', ''large language model'', ''language model'', ''language'']"
  by code_simp

lemma eval_llm_buckets:
  "documentMatches (loadIndex llmIndex) llmQuestion =
     [(''a'', \<lparr>qm_document = llmDocA, qm_category = ''AI Concepts'',
              qm_link = ''https://example.com/ai'',
              qm_matchedKeywords = [''large language models'']\<rparr>),
      (''b'', \<lparr>qm_document = llmDocB, qm_category = ''AI Concepts'',
              qm_link = ''https://example.com/ai'',
              qm_matchedKeywords = [''large language model'']\<rparr>),
      (''c'', \<lparr>qm_document = llmDocC, qm_category = ''AI Concepts'',
              qm_link = ''https://example.com/ai'',
              qm_matchedKeywords = [''language model'', ''language'', ''language'']\<rparr>)]"
  by code_simp

lemma eval_llm2_matched:
  "matchedKeywords (loadIndex llmIndex) llmQuestion2 =
     [''large language model'', ''language model'', ''language'']"
  by code_simp

lemma eval_tokens_search:
  "performSearch (loadIndex scenarioIndex) tokensQuestion =
     \<lparr>sr_matches = [\<lparr>qm_document = scenarioDoc2, qm_category = ''NLP'',
                      qm_link = ''https://example.com/nlp'',
                      qm_matchedKeywords = [''tokenization'']\<rparr>],
      sr_matchedKeywords = [''tokenization'']\<rparr>"
  by code_simp

lemma eval_token_twice:
  "performSearch (loadIndex scenarioIndex) ''token token'' =
     \<lparr>sr_matches = [\<lparr>qm_document = scenarioDoc2, qm_category = ''NLP'',
                      qm_link = ''https://example.com/nlp'',
                      qm_matchedKeywords = [''token'', ''token'']\<rparr>],
      sr_matchedKeywords = [''token'']\<rparr>"
  by code_simp

lemma eval_empty_question:
  "performSearch (loadIndex scenarioIndex) '''' = \<lparr>sr_matches = [], sr_matchedKeywords = []\<rparr>"
  by code_simp

lemma eval_empty_index:
  "performSearch (loadIndex []) '''' = \<lparr>sr_matches = [], sr_matchedKeywords = []\<rparr>"
  by code_simp

lemma eval_empty_fallback:
  "performSearch (loadIndex emptyFallbackIndex) '''' = \<lparr>sr_matches = [], sr_matchedKeywords = []\<rparr>"
  by code_simp

lemma eval_shared_context:
  "searchContext (loadIndex sharedLinkIndex) sharedLinkIndex sharedQuestion =
     \<lparr>cr_context = Some (''[Machine Learning - Regression]'' @ [CHR 0x0A] @ ''Regression is...''
          @ [CHR 0x0A, CHR 0x0A] @ ''[Deep Learning - Networks]'' @ [CHR 0x0A] @ ''A network is...''
          @ [CHR 0x0A, CHR 0x0A] @ ''[NLP - Tokens]'' @ [CHR 0x0A] @ ''A token is...''),
      cr_categories = [''Machine Learning'', ''Deep Learning'', ''NLP''],
      cr_links = [''https://example.com/learn'', ''https://example.com/nlp''],
      cr_documents = [sharedDoc1, sharedDoc2, sharedDoc3]\<rparr>"
  by code_simp

lemma eval_dup_occurrences:
  "normalizedOccurrences dupIndex =
     [(''token'', \<lparr>ent_document = dupDoc1, ent_category = ''NLP'',
                  ent_link = ''https://example.com/nlp''\<rparr>),
      (''token'', \<lparr>ent_document = dupDoc2, ent_category = ''NLP'',
                  ent_link = ''https://example.com/nlp''\<rparr>)]"
  by code_simp

lemma eval_tokenization_entry:
  "Map_get (loadIndex scenarioIndex) ''tokenization'' =
     Some \<lparr>ent_document = scenarioDoc2, ent_category = ''NLP'',
           ent_link = ''https://example.com/nlp''\<rparr>"
  by code_simp

lemma eval_scenario_ids: "distinct (map doc_id (allDocuments scenarioIndex))"
  by code_simp

lemma eval_pair_search:
  "performSearch (loadIndex pairIndex) pairQuestion =
     \<lparr>sr_matches =
        [\<lparr>qm_document = pairDoc1, qm_category = ''NLP'', qm_link = ''https://example.com/nlp'',
          qm_matchedKeywords = [''token'', ''corpus'']\<rparr>,
         \<lparr>qm_document = pairDoc3, qm_category = ''Vision'',
          qm_link = ''https://example.com/vision'', qm_matchedKeywords = [''pixel'']\<rparr>,
         \<lparr>qm_document = pairDoc2, qm_category = ''NLP'', qm_link = ''https://example.com/nlp'',
          qm_matchedKeywords = [''stemming'']\<rparr>],
      sr_matchedKeywords = [''token'', ''pixel'', ''stemming'', ''corpus'']\<rparr>"
  by code_simp

lemma eval_sameId_search:
  "performSearch (loadIndex sameIdIndex) ''foo bar'' =
     \<lparr>sr_matches =
        [\<lparr>qm_document = sameIdDoc1, qm_category = ''NLP'', qm_link = ''https://example.com/nlp'',
          qm_matchedKeywords = [''foo'', ''bar'']\<rparr>],
      sr_matchedKeywords = [''foo'', ''bar'']\<rparr>"
  by code_simp

lemma eval_sameId_entry:
  "Map_get (loadIndex sameIdIndex) ''bar'' =
     Some \<lparr>ent_document = sameIdDoc2, ent_category = ''NLP'',
           ent_link = ''https://example.com/nlp''\<rparr>"
  by code_simp

lemma eval_pair_entry:
  "Map_get (loadIndex pairIndex) ''corpus'' =
     Some \<lparr>ent_document = pairDoc1, ent_category = ''NLP'',
           ent_link = ''https://example.com/nlp''\<rparr>"
  by code_simp

lemma eval_pair_ids: "distinct (map doc_id (allDocuments pairIndex))"
  by code_simp

lemma eval_punct_candidates:
  "spec_candidates punctQuestion =
     [''what is a'', ''is a neural'', ''a neural network'', ''neural network it'',
      ''network it learns'',
      ''what is'', ''is a'', ''a neural'', ''neural network'', ''network it'', ''it learns'',
      ''neural'', ''network'', ''it'', ''learns'']"
  by code_simp

section \<open>The claims\<close>

subsection \<open>C1: the fallback of the context assembler\<close>

text \<open>
  Claim C1. When the matching step yields no QueryMatch, \<^verbatim>\<open>searchContext\<close> returns the
  fallback built from the first document of the category named \<^verbatim>\<open>AI Concepts\<close> (the first
  category of that name, which is the one the lookup finds) if that category has a document:
  the context is \<^verbatim>\<open>[\<close> + name + \<^verbatim>\<open>]\<close> + newline + content, categories and links are
  singletons and documents holds that document alone. If no category has that name, or the
  one found has no document, it returns a null context and three empty lists. The context is
  null in no other case: with at least one QueryMatch it is the joined string of the blocks.
\<close>

theorem C1_fallback:
  "(sr_matches (performSearch km q) = [] \<and> fallbackCategory idx cat \<and> cat_documents cat = d # ds
      \<longrightarrow> searchContext km idx q =
            \<lparr>cr_context = Some (''['' @ cat_category cat @ '']'' @ [CHR 0x0A] @ doc_content d),
             cr_categories = [cat_category cat], cr_links = [cat_link cat], cr_documents = [d]\<rparr>)
   \<and> (sr_matches (performSearch km q) = []
        \<and> ((\<forall>c\<in>set idx. cat_category c \<noteq> ''AI Concepts'')
            \<or> fallbackCategory idx cat \<and> cat_documents cat = [])
      \<longrightarrow> searchContext km idx q =
            \<lparr>cr_context = None, cr_categories = [], cr_links = [], cr_documents = []\<rparr>)
   \<and> (cr_context (searchContext km idx q) = None \<longleftrightarrow>
        sr_matches (performSearch km q) = []
        \<and> \<not> (\<exists>c. fallbackCategory idx c \<and> cat_documents c \<noteq> []))
   \<and> (sr_matches (performSearch km q) \<noteq> [] \<longrightarrow>
        cr_context (searchContext km idx q)
          = Some (join ([CHR 0x0A] @ [CHR 0x0A]) (map contextPart (sr_matches (performSearch km q)))))"
proof (intro conjI impI)
  assume a: "sr_matches (performSearch km q) = [] \<and> fallbackCategory idx cat \<and> cat_documents cat = d # ds"
  then have "find (\<lambda>c. cat_category c = ''AI Concepts'') idx = Some cat"
    using find_fallback by blast
  with a show "searchContext km idx q =
            \<lparr>cr_context = Some (''['' @ cat_category cat @ '']'' @ [CHR 0x0A] @ doc_content d),
             cr_categories = [cat_category cat], cr_links = [cat_link cat], cr_documents = [d]\<rparr>"
    by (simp add: searchContext_def assemble_def fallbackResult_def newline_def)
next
  assume a: "sr_matches (performSearch km q) = []
        \<and> ((\<forall>c\<in>set idx. cat_category c \<noteq> ''AI Concepts'')
            \<or> fallbackCategory idx cat \<and> cat_documents cat = [])"
  have "fallbackResult idx = emptyResult"
  proof (cases "\<forall>c\<in>set idx. cat_category c \<noteq> ''AI Concepts''")
    case True
    then have "find (\<lambda>c. cat_category c = ''AI Concepts'') idx = None"
      by (simp only: find_no_fallback)
    then show ?thesis by (simp add: fallbackResult_def)
  next
    case False
    with a have "fallbackCategory idx cat" and e: "cat_documents cat = []" by simp_all
    then have "find (\<lambda>c. cat_category c = ''AI Concepts'') idx = Some cat"
      by (simp only: find_fallback)
    with e show ?thesis by (simp add: fallbackResult_def)
  qed
  with a show "searchContext km idx q =
            \<lparr>cr_context = None, cr_categories = [], cr_links = [], cr_documents = []\<rparr>"
    by (simp add: searchContext_def assemble_def emptyResult_def)
next
  show "cr_context (searchContext km idx q) = None \<longleftrightarrow>
        sr_matches (performSearch km q) = []
        \<and> \<not> (\<exists>c. fallbackCategory idx c \<and> cat_documents c \<noteq> [])"
  proof (cases "find (\<lambda>c. cat_category c = ''AI Concepts'') idx")
    case None
    then have "\<not> (\<exists>c. fallbackCategory idx c)"
      using find_fallback[of idx] by simp
    with None show ?thesis
      by (auto simp: searchContext_def assemble_def fallbackResult_def emptyResult_def)
  next
    case (Some c)
    then have "\<And>c'. fallbackCategory idx c' \<longleftrightarrow> c' = c"
      unfolding find_fallback[symmetric] by auto
    with Some show ?thesis
      by (auto simp: searchContext_def assemble_def fallbackResult_def emptyResult_def
          split: list.splits)
  qed
next
  assume "sr_matches (performSearch km q) \<noteq> []"
  then show "cr_context (searchContext km idx q)
          = Some (join ([CHR 0x0A] @ [CHR 0x0A]) (map contextPart (sr_matches (performSearch km q))))"
    by (simp add: searchContext_def assemble_def newline_def)
qed

text \<open>
  The scenario index with the empty question takes the fallback; the empty index, and an
  index whose fallback category has no document, give the empty result; a question that
  matches gives a context string.
\<close>

theorem C1_fallback_witness:
  "searchContext (loadIndex scenarioIndex) scenarioIndex '''' =
     \<lparr>cr_context = Some (''[AI Concepts]'' @ [CHR 0x0A] @ ''Neural networks are...''),
      cr_categories = [''AI Concepts''], cr_links = [''https://example.com/ai''],
      cr_documents = [scenarioDoc1]\<rparr>
   \<and> searchContext (loadIndex []) [] '''' =
     \<lparr>cr_context = None, cr_categories = [], cr_links = [], cr_documents = []\<rparr>
   \<and> searchContext (loadIndex emptyFallbackIndex) emptyFallbackIndex '''' =
     \<lparr>cr_context = None, cr_categories = [], cr_links = [], cr_documents = []\<rparr>
   \<and> cr_context (searchContext (loadIndex scenarioIndex) scenarioIndex tokensQuestion) =
     Some (''[NLP - Tokenization]'' @ [CHR 0x0A] @ ''Tokenization splits...'')"
proof -
  let ?cat = "\<lparr>cat_category = ''AI Concepts'', cat_link = ''https://example.com/ai'',
       cat_documents = [scenarioDoc1]\<rparr>"
  let ?nlp = "\<lparr>cat_category = ''NLP'', cat_link = ''https://example.com/nlp'',
       cat_documents = [scenarioDoc2]\<rparr>"
  have h1: "sr_matches (performSearch (loadIndex scenarioIndex) '''') = []"
    by (simp add: eval_empty_question)
  have h2: "fallbackCategory scenarioIndex ?cat"
    unfolding fallbackCategory_def scenarioIndex_def
    by (intro exI[of _ "[]"] exI[of _ "[?nlp]"]) simp
  have h3: "cat_documents ?cat = scenarioDoc1 # []" by simp
  have h4: "sr_matches (performSearch (loadIndex []) '''') = []"
    by (simp add: eval_empty_index)
  have h5: "\<forall>c\<in>set ([] :: indexData). cat_category c \<noteq> ''AI Concepts''" by simp
  have h6: "sr_matches (performSearch (loadIndex scenarioIndex) tokensQuestion) \<noteq> []"
    by (simp add: eval_tokens_search)
  have a: "searchContext (loadIndex scenarioIndex) scenarioIndex '''' =
     \<lparr>cr_context = Some (''[AI Concepts]'' @ [CHR 0x0A] @ ''Neural networks are...''),
      cr_categories = [''AI Concepts''], cr_links = [''https://example.com/ai''],
      cr_documents = [scenarioDoc1]\<rparr>"
    using C1_fallback[of "loadIndex scenarioIndex" "''''" scenarioIndex ?cat scenarioDoc1 "[]"]
      h1 h2 h3 by (simp add: scenarioDoc1_def)
  have b: "searchContext (loadIndex []) [] '''' =
     \<lparr>cr_context = None, cr_categories = [], cr_links = [], cr_documents = []\<rparr>"
    using C1_fallback[of "loadIndex []" "''''" "[]"] h4 h5 by blast
  have c: "cr_context (searchContext (loadIndex scenarioIndex) scenarioIndex tokensQuestion) =
     Some (''[NLP - Tokenization]'' @ [CHR 0x0A] @ ''Tokenization splits...'')"
    using C1_fallback[of "loadIndex scenarioIndex" tokensQuestion scenarioIndex] h6
    by (simp add: eval_tokens_search contextPart_def scenarioDoc2_def newline_def)
  let ?none = "\<lparr>cat_category = ''AI Concepts'', cat_link = ''https://example.com/ai'',
       cat_documents = []\<rparr>"
  have h7: "sr_matches (performSearch (loadIndex emptyFallbackIndex) '''') = []"
    by (simp add: eval_empty_fallback)
  have h8: "fallbackCategory emptyFallbackIndex ?none \<and> cat_documents ?none = []"
    unfolding fallbackCategory_def emptyFallbackIndex_def
    by (intro conjI exI[of _ "[]"]) simp_all
  have d: "searchContext (loadIndex emptyFallbackIndex) emptyFallbackIndex '''' =
     \<lparr>cr_context = None, cr_categories = [], cr_links = [], cr_documents = []\<rparr>"
    using C1_fallback[of "loadIndex emptyFallbackIndex" "''''" emptyFallbackIndex ?none] h7 h8
    by blast
  from a b c d show ?thesis by blast
qed

subsection \<open>C2: the subset filter\<close>

text \<open>
  Claim C2 as stated fails: with the keywords \<^verbatim>\<open>large language models\<close>,
  \<^verbatim>\<open>large language model\<close> and \<^verbatim>\<open>language model\<close> in the index and a question that
  triggers all three, the trigram \<^verbatim>\<open>large language models\<close> is collected first and kept, and
  \<^verbatim>\<open>large language model\<close> is dropped as a substring of it.
\<close>

theorem C2_subset_filter_counterexample:
  "Map_has (loadIndex llmIndex) ''large language model''
   \<and> Map_has (loadIndex llmIndex) ''language model''
   \<and> ''large language model'' \<in> set (matchedKeywords (loadIndex llmIndex) llmQuestion)
   \<and> ''language model'' \<in> set (matchedKeywords (loadIndex llmIndex) llmQuestion)
   \<and> ''large language model'' \<notin> set (sr_matchedKeywords (performSearch (loadIndex llmIndex) llmQuestion))"
proof -
  have "Map_has (loadIndex llmIndex) ''large language model''
      \<and> Map_has (loadIndex llmIndex) ''language model''"
    by code_simp
  then show ?thesis by (simp add: eval_llm_matched eval_llm_search)
qed

text \<open>
  Claim C2, amended. The matched keywords are processed in descending word count, ties in
  collection order (a stable sort: a permutation, sorted, and unchanged on every class of
  equal word count); a keyword is kept exactly when no keyword kept before it is a different
  string that contains it as a substring. If \<^verbatim>\<open>large language model\<close> is triggered, the kept
  keywords exclude \<^verbatim>\<open>language model\<close> and \<^verbatim>\<open>language\<close>; they contain
  \<^verbatim>\<open>large language model\<close> itself provided no other triggered keyword contains it.
\<close>

theorem C2_subset_filter_amended:
  "mset (sortedKeywords ms) = mset ms
   \<and> sorted_wrt (\<lambda>a b. wordCount b \<le> wordCount a) (sortedKeywords ms)
   \<and> filter (\<lambda>k. wordCount k = n) (sortedKeywords ms) = filter (\<lambda>k. wordCount k = n) ms
   \<and> (distinct ms \<and> sortedKeywords ms = pre @ k # post \<longrightarrow>
        (k \<in> set (filterSubsets ms) \<longleftrightarrow> \<not> isSubset (filterLoop pre []) k))
   \<and> (''large language model'' \<in> set (matchedKeywords km q) \<longrightarrow>
        ''language model'' \<notin> set (sr_matchedKeywords (performSearch km q))
        \<and> ''language'' \<notin> set (sr_matchedKeywords (performSearch km q)))
   \<and> (''large language model'' \<in> set (matchedKeywords km q)
        \<and> \<not> isSubset (matchedKeywords km q) ''large language model'' \<longrightarrow>
        ''large language model'' \<in> set (sr_matchedKeywords (performSearch km q)))"
proof (intro conjI impI)
  show "mset (sortedKeywords ms) = mset ms" by (simp add: sortedKeywords_def)
  show "sorted_wrt (\<lambda>a b. wordCount b \<le> wordCount a) (sortedKeywords ms)"
    by (rule sortedKeywords_desc)
  show "filter (\<lambda>k. wordCount k = n) (sortedKeywords ms) = filter (\<lambda>k. wordCount k = n) ms"
    by (rule sortedKeywords_stable)
next
  assume "distinct ms \<and> sortedKeywords ms = pre @ k # post"
  then show "k \<in> set (filterSubsets ms) \<longleftrightarrow> \<not> isSubset (filterLoop pre []) k"
    using filterSubsets_prefix by blast
next
  assume a: "''large language model'' \<in> set (matchedKeywords km q)"
  show "''language model'' \<notin> set (sr_matchedKeywords (performSearch km q))"
    by (rule kept_drops[OF a llm_facts(1)]) (simp_all add: llm_facts)
  show "''language'' \<notin> set (sr_matchedKeywords (performSearch km q))"
    by (rule kept_drops[OF a llm_facts(2)]) (simp_all add: llm_facts)
next
  assume "''large language model'' \<in> set (matchedKeywords km q)
        \<and> \<not> isSubset (matchedKeywords km q) ''large language model''"
  then show "''large language model'' \<in> set (sr_matchedKeywords (performSearch km q))"
    using kept_undominated by blast
qed

text \<open>
  The amended claim at concrete inputs: a two-keyword list, the question above, and a
  question in which nothing contains \<^verbatim>\<open>large language model\<close>.
\<close>

theorem C2_subset_filter_amended_witness:
  "''language model'' \<notin> set (filterSubsets [''language model'', ''large language model''])
   \<and> ''language model'' \<notin> set (sr_matchedKeywords (performSearch (loadIndex llmIndex) llmQuestion))
   \<and> ''language'' \<notin> set (sr_matchedKeywords (performSearch (loadIndex llmIndex) llmQuestion))
   \<and> ''large language model''
        \<in> set (sr_matchedKeywords (performSearch (loadIndex llmIndex) llmQuestion2))"
proof -
  let ?ms = "[''language model'', ''large language model'']"
  have h1: "distinct ?ms \<and> sortedKeywords ?ms = [''large language model''] @ ''language model'' # []"
    by code_simp
  have h2: "isSubset (filterLoop [''large language model''] []) ''language model''"
    by code_simp
  have h3: "''large language model'' \<in> set (matchedKeywords (loadIndex llmIndex) llmQuestion)"
    by (simp add: eval_llm_matched)
  have h4: "''large language model'' \<in> set (matchedKeywords (loadIndex llmIndex) llmQuestion2)
      \<and> \<not> isSubset (matchedKeywords (loadIndex llmIndex) llmQuestion2) ''large language model''"
    unfolding eval_llm2_matched by code_simp
  have a: "''language model'' \<notin> set (filterSubsets ?ms)"
    using C2_subset_filter_amended[of ?ms _ "[''large language model'']" "''language model''" "[]"]
      h1 h2 by blast
  have b: "''language model'' \<notin> set (sr_matchedKeywords (performSearch (loadIndex llmIndex) llmQuestion))
      \<and> ''language'' \<notin> set (sr_matchedKeywords (performSearch (loadIndex llmIndex) llmQuestion))"
    using C2_subset_filter_amended[of _ _ _ _ _ "loadIndex llmIndex" llmQuestion] h3 by blast
  have c: "''large language model''
        \<in> set (sr_matchedKeywords (performSearch (loadIndex llmIndex) llmQuestion2))"
    using C2_subset_filter_amended[of _ _ _ _ _ "loadIndex llmIndex" llmQuestion2] h4 by blast
  from a b c show ?thesis by blast
qed

subsection \<open>C3: the candidate n-grams\<close>

text \<open>
  Claim C3. The texts of the n-grams that \<^verbatim>\<open>performSearch\<close> generates are, in this order,
  every window of three words of the normalized word sequence, every window of two words,
  and every word of at least two characters that is not one of the 17 stop words, where a
  window is written with single spaces between its words. The normalized words are those of
  \<open>spec_words\<close>, defined from the specification's five steps alone (lower case, other
  characters than \<^verbatim>\<open>[a-z0-9\s]\<close> replaced by a space, white space collapsed, trimmed,
  split at spaces); the additional \<^verbatim>\<open>trim\<close> that the code applies first changes nothing.
\<close>

theorem C3_candidate_ngrams:
  "map ng_text (extractNgrams question) = spec_candidates question
   \<and> set stopWords = spec_stopWords \<and> card spec_stopWords = 17"
proof (intro conjI)
  have "map ng_text (extractNgrams question) =
      map spec_phrase (map (\<lambda>j. take 3 (drop j (spec_words question)))
          [0 ..< Suc (length (spec_words question)) - 3])
      @ map spec_phrase (map (\<lambda>j. take 2 (drop j (spec_words question)))
          [0 ..< Suc (length (spec_words question)) - 2])
      @ filter (\<lambda>w. 2 \<le> length w \<and> w \<notin> set stopWords) (spec_words question)"
    by (simp add: extractNgrams_def questionWords_spec Let_def pushWindows_eq pushUnigrams_eq
        o_def join_spec)
  moreover have "map (\<lambda>j. take 3 (drop j (spec_words question)))
          [0 ..< Suc (length (spec_words question)) - 3] = spec_windows 3 (spec_words question)"
    by (rule windows_by_index) simp
  moreover have "map (\<lambda>j. take 2 (drop j (spec_words question)))
          [0 ..< Suc (length (spec_words question)) - 2] = spec_windows 2 (spec_words question)"
    by (rule windows_by_index) simp
  ultimately show "map ng_text (extractNgrams question) = spec_candidates question"
    by (simp only: spec_candidates_def Let_def stopWords_spec)
  show "set stopWords = spec_stopWords" by (rule stopWords_spec)
  have "card (set stopWords) = 17" by code_simp
  then show "card spec_stopWords = 17" by (simp only: stopWords_spec)
qed

text \<open>
  A question with capitals, punctuation and runs of white space, and one that is a word
  followed by a question mark.
\<close>

theorem C3_candidate_ngrams_witness:
  "map ng_text (extractNgrams ''  What is  a Neural-Network??  It   LEARNS!'') =
     [''what is a'', ''is a neural'', ''a neural network'', ''neural network it'',
      ''network it learns'',
      ''what is'', ''is a'', ''a neural'', ''neural network'', ''network it'', ''it learns'',
      ''neural'', ''network'', ''it'', ''learns'']
   \<and> map ng_text (extractNgrams ''Wh?'') = [''wh'']"
proof -
  have "spec_candidates ''Wh?'' = [''wh'']" by code_simp
  with C3_candidate_ngrams[of punctQuestion] C3_candidate_ngrams[of "''Wh?''"]
    eval_punct_candidates
  show ?thesis by (simp add: punctQuestion_def)
qed

subsection \<open>C4: the keyword index builder\<close>

text \<open>
  Claim C4. The keyword map built by \<^verbatim>\<open>loadIndex\<close> has one entry per distinct non-empty
  normalized (lower-cased, trimmed) keyword of the index: its keys are distinct and are
  exactly those strings; it has at most as many entries as there are keyword occurrences;
  every entry binds a normalized keyword to a document that lists it, with the name and link
  of that document's category; and the last occurrence of a normalized keyword in load
  order is the one the map returns. The function is total: no error is raised.
\<close>

theorem C4_keyword_index:
  "distinct (map fst (loadIndex idx))
   \<and> fst ` set (loadIndex idx)
       = {k. k \<noteq> [] \<and> k \<in> (\<lambda>p. trim (toLowerCase (fst p))) ` set (keywordOccurrences idx)}
   \<and> length (loadIndex idx) \<le> length (keywordOccurrences idx)
   \<and> set (loadIndex idx) \<subseteq> set (normalizedOccurrences idx)
   \<and> (normalizedOccurrences idx = pre @ (k, e) # post \<and> k \<notin> fst ` set post
        \<longrightarrow> Map_get (loadIndex idx) k = Some e)"
proof (intro conjI impI)
  show "distinct (map fst (loadIndex idx))"
    by (rule loadIndex_distinct)
  show "fst ` set (loadIndex idx)
       = {k. k \<noteq> [] \<and> k \<in> (\<lambda>p. trim (toLowerCase (fst p))) ` set (keywordOccurrences idx)}"
    unfolding loadIndex_setAll keys_setAll normalizedOccurrences_def by force
  have "length (loadIndex idx) \<le> length (normalizedOccurrences idx)"
    using length_setAll[of "normalizedOccurrences idx" "[]"] by (simp add: loadIndex_setAll)
  also have "\<dots> \<le> length (keywordOccurrences idx)"
    unfolding normalizedOccurrences_def
    by (rule order_trans[OF length_filter_le]) simp
  finally show "length (loadIndex idx) \<le> length (keywordOccurrences idx)" .
  show "set (loadIndex idx) \<subseteq> set (normalizedOccurrences idx)"
    by (rule loadIndex_entries)
next
  assume "normalizedOccurrences idx = pre @ (k, e) # post \<and> k \<notin> fst ` set post"
  then show "Map_get (loadIndex idx) k = Some e"
    unfolding Map_get_def loadIndex_setAll using setAll_last_wins by blast
qed

text \<open>
  One keyword under two documents: the map returns the entry of the second document.
\<close>

theorem C4_keyword_index_witness:
  "Map_get (loadIndex dupIndex) ''token''
     = Some \<lparr>ent_document = dupDoc2, ent_category = ''NLP'', ent_link = ''https://example.com/nlp''\<rparr>
   \<and> length (loadIndex dupIndex) \<le> length (keywordOccurrences dupIndex)"
proof -
  let ?e1 = "\<lparr>ent_document = dupDoc1, ent_category = ''NLP'', ent_link = ''https://example.com/nlp''\<rparr>"
  let ?e2 = "\<lparr>ent_document = dupDoc2, ent_category = ''NLP'', ent_link = ''https://example.com/nlp''\<rparr>"
  have h: "normalizedOccurrences dupIndex = [(''token'', ?e1)] @ (''token'', ?e2) # []
      \<and> ''token'' \<notin> fst ` set ([] :: (string \<times> entry) list)"
    by (simp add: eval_dup_occurrences)
  from C4_keyword_index[of dupIndex "[(''token'', ?e1)]" "''token''" ?e2 "[]"] h
  show ?thesis by blast
qed

subsection \<open>C5: the tokenization scenario\<close>

text \<open>
  Claim C5 as stated fails: the question contains the word \<^verbatim>\<open>tokens\<close>, which is not the
  keyword \<^verbatim>\<open>token\<close>, and matching is by equality of strings; the single match, for
  \<^verbatim>\<open>d2\<close>, does not hold \<^verbatim>\<open>token\<close>.
\<close>

theorem C5_tokenization_counterexample:
  "length (sr_matches (performSearch (loadIndex scenarioIndex)
       ''Tell me about tokenization and tokens'')) = 1
   \<and> qm_document (hd (sr_matches (performSearch (loadIndex scenarioIndex)
       ''Tell me about tokenization and tokens''))) = scenarioDoc2
   \<and> ''token'' \<notin> set (qm_matchedKeywords (hd (sr_matches (performSearch (loadIndex scenarioIndex)
       ''Tell me about tokenization and tokens''))))
   \<and> set (qm_matchedKeywords (hd (sr_matches (performSearch (loadIndex scenarioIndex)
       ''Tell me about tokenization and tokens'')))) \<noteq> {''tokenization'', ''token''}"
  using eval_tokens_search by (auto simp: tokensQuestion_def)

text \<open>
  Claim C5, amended. On the index of the concrete scenarios the question
  \<^verbatim>\<open>Tell me about tokenization and tokens\<close> produces exactly one QueryMatch, for document
  \<^verbatim>\<open>d2\<close>, whose matched keywords are \<^verbatim>\<open>tokenization\<close> alone; it is also the only kept
  keyword.
\<close>

theorem C5_tokenization_scenario:
  "performSearch (loadIndex scenarioIndex) ''Tell me about tokenization and tokens'' =
     \<lparr>sr_matches = [\<lparr>qm_document = scenarioDoc2, qm_category = ''NLP'',
                      qm_link = ''https://example.com/nlp'',
                      qm_matchedKeywords = [''tokenization'']\<rparr>],
      sr_matchedKeywords = [''tokenization'']\<rparr>"
  using eval_tokens_search by (simp add: tokensQuestion_def)

subsection \<open>C6: the matched keywords of a QueryMatch\<close>

text \<open>
  Claim C6 as stated fails: a keyword that occurs at two positions of the question is
  pushed to its bucket twice.
\<close>

theorem C6_matched_keywords_counterexample:
  "\<not> distinct (qm_matchedKeywords (hd (sr_matches (performSearch (loadIndex scenarioIndex)
       ''token token''))))"
  by (simp add: eval_token_twice)

text \<open>
  Claim C6, amended. The \<^verbatim>\<open>matchedKeywords\<close> of a QueryMatch is a list with one entry per
  generated n-gram, in generation order, whose text is a kept keyword bound to an entry with
  the match's document id (so it may repeat a keyword). When the document ids of the
  Knowledge Index are distinct, every entry is a normalized keyword of the match's document.
\<close>

theorem C6_matched_keywords_amended:
  "(m \<in> set (sr_matches (performSearch km q)) \<longrightarrow>
      qm_matchedKeywords m
        = filter (\<lambda>t. t \<in> set (sr_matchedKeywords (performSearch km q)))
            (bucketTexts km (doc_id (qm_document m)) (map ng_text (extractNgrams q))))
   \<and> (distinct (map doc_id (allDocuments idx))
        \<and> m \<in> set (sr_matches (performSearch (loadIndex idx) q))
        \<and> kw \<in> set (qm_matchedKeywords m) \<longrightarrow>
      kw \<in> (\<lambda>raw. trim (toLowerCase raw)) ` set (doc_keywords (qm_document m)))"
proof (intro conjI impI)
  assume "m \<in> set (sr_matches (performSearch km q))"
  then obtain d b where b: "(d, b) \<in> set (documentMatches km q)"
    and eq: "m = b\<lparr>qm_matchedKeywords :=
              filter (\<lambda>k. k \<in> set (filteredKeywords km q)) (qm_matchedKeywords b)\<rparr>"
    unfolding in_matches by blast
  have "doc_id (qm_document m) = d" using bucket_props(2)[OF b] eq by simp
  then show "qm_matchedKeywords m
        = filter (\<lambda>t. t \<in> set (sr_matchedKeywords (performSearch km q)))
            (bucketTexts km (doc_id (qm_document m)) (map ng_text (extractNgrams q)))"
    using bucket_props(1)[OF b] eq by (simp add: performSearch_def)
next
  let ?km = "loadIndex idx"
  assume a: "distinct (map doc_id (allDocuments idx))
        \<and> m \<in> set (sr_matches (performSearch ?km q))
        \<and> kw \<in> set (qm_matchedKeywords m)"
  then have m: "m \<in> set (sr_matches (performSearch ?km q))" and kw: "kw \<in> set (qm_matchedKeywords m)"
    by blast+
  from match_keyword_props(2)[OF m kw] obtain e where
    e: "map_of ?km kw = Some e" "doc_id (ent_document e) = doc_id (qm_document m)" by blast
  have "uniqueDocIds ?km" using a loadIndex_uniqueDocIds by blast
  from match_document[OF m kw e(1) this] have "qm_document m = ent_document e" .
  with loadIndex_entry[OF e(1)]
  show "kw \<in> (\<lambda>raw. trim (toLowerCase raw)) ` set (doc_keywords (qm_document m))" by simp
qed

text \<open>
  The amended claim on the scenario index and the question \<^verbatim>\<open>token token\<close>.
\<close>

theorem C6_matched_keywords_amended_witness:
  "qm_matchedKeywords (hd (sr_matches (performSearch (loadIndex scenarioIndex) ''token token'')))
     = [''token'', ''token'']
   \<and> filter (\<lambda>t. t \<in> set (sr_matchedKeywords (performSearch (loadIndex scenarioIndex) ''token token'')))
        (bucketTexts (loadIndex scenarioIndex) ''d2'' (map ng_text (extractNgrams ''token token'')))
     = [''token'', ''token'']
   \<and> ''token'' \<in> (\<lambda>raw. trim (toLowerCase raw)) ` set (doc_keywords scenarioDoc2)"
proof -
  let ?r = "performSearch (loadIndex scenarioIndex) ''token token''"
  let ?m = "hd (sr_matches ?r)"
  have h1: "?m \<in> set (sr_matches ?r)" by (simp add: eval_token_twice)
  have h2: "distinct (map doc_id (allDocuments scenarioIndex))" by (rule eval_scenario_ids)
  have h3: "''token'' \<in> set (qm_matchedKeywords ?m)" by (simp add: eval_token_twice)
  have m: "qm_matchedKeywords ?m = [''token'', ''token'']" "qm_document ?m = scenarioDoc2"
    "doc_id (qm_document ?m) = ''d2''"
    by (simp_all add: eval_token_twice scenarioDoc2_def)
  from C6_matched_keywords_amended[of ?m "loadIndex scenarioIndex" "''token token''" scenarioIndex
      "''token''"] h1 h2 h3
  have f: "qm_matchedKeywords ?m
        = filter (\<lambda>t. t \<in> set (sr_matchedKeywords ?r))
            (bucketTexts (loadIndex scenarioIndex) (doc_id (qm_document ?m))
               (map ng_text (extractNgrams ''token token'')))"
    and g: "''token'' \<in> (\<lambda>raw. trim (toLowerCase raw)) ` set (doc_keywords (qm_document ?m))"
    by blast+
  have a: "filter (\<lambda>t. t \<in> set (sr_matchedKeywords ?r))
        (bucketTexts (loadIndex scenarioIndex) ''d2'' (map ng_text (extractNgrams ''token token'')))
     = [''token'', ''token'']"
    using f unfolding m(1) m(3) by simp
  have b: "''token'' \<in> (\<lambda>raw. trim (toLowerCase raw)) ` set (doc_keywords scenarioDoc2)"
    using g unfolding m(2) .
  from m(1) a b show ?thesis by blast
qed

subsection \<open>C7: integrity of the document buckets\<close>

text \<open>
  Claim C7. Every QueryMatch of the final matches list has a non-empty \<^verbatim>\<open>matchedKeywords\<close>
  list whose entries all belong to the kept (subset-filtered) keywords, and a bucket of
  \<^verbatim>\<open>documentMatches\<close> none of whose keywords was kept contributes no QueryMatch: no final
  match carries its document id.
\<close>

theorem C7_bucket_integrity:
  "(m \<in> set (sr_matches (performSearch km q)) \<longrightarrow>
      qm_matchedKeywords m \<noteq> []
      \<and> set (qm_matchedKeywords m) \<subseteq> set (sr_matchedKeywords (performSearch km q)))
   \<and> ((d, b) \<in> set (documentMatches km q)
        \<and> set (qm_matchedKeywords b) \<inter> set (filteredKeywords km q) = {} \<longrightarrow>
      d \<notin> (\<lambda>m'. doc_id (qm_document m')) ` set (sr_matches (performSearch km q)))"
proof (intro conjI impI)
  assume "m \<in> set (sr_matches (performSearch km q))"
  then obtain d' b' where
    "filter (\<lambda>kw. kw \<in> set (filteredKeywords km q)) (qm_matchedKeywords b') \<noteq> []"
    "m = b'\<lparr>qm_matchedKeywords :=
              filter (\<lambda>kw. kw \<in> set (filteredKeywords km q)) (qm_matchedKeywords b')\<rparr>"
    unfolding in_matches by blast
  then show "qm_matchedKeywords m \<noteq> []"
    and "set (qm_matchedKeywords m) \<subseteq> set (sr_matchedKeywords (performSearch km q))"
    by (auto simp: performSearch_def)
next
  assume a: "(d, b) \<in> set (documentMatches km q)
    \<and> set (qm_matchedKeywords b) \<inter> set (filteredKeywords km q) = {}"
  show "d \<notin> (\<lambda>m'. doc_id (qm_document m')) ` set (sr_matches (performSearch km q))"
  proof
    assume "d \<in> (\<lambda>m'. doc_id (qm_document m')) ` set (sr_matches (performSearch km q))"
    then obtain m' where m': "m' \<in> set (sr_matches (performSearch km q))"
      and d: "d = doc_id (qm_document m')" by blast
    from m' obtain d' b' where b': "(d', b') \<in> set (documentMatches km q)"
      and ne: "filter (\<lambda>kw. kw \<in> set (filteredKeywords km q)) (qm_matchedKeywords b') \<noteq> []"
      and eq: "m' = b'\<lparr>qm_matchedKeywords :=
              filter (\<lambda>kw. kw \<in> set (filteredKeywords km q)) (qm_matchedKeywords b')\<rparr>"
      unfolding in_matches by blast
    have "d' = d" using bucket_props(2)[OF b'] d eq by simp
    with a b' buckets_distinct[of km q] have "b' = b"
      by (metis eq_key_imp_eq_value)
    with ne a show False by (auto simp: filter_empty_conv)
  qed
qed

text \<open>
  The index of nested keywords: the first bucket survives, the second loses its keyword.
\<close>

theorem C7_bucket_integrity_witness:
  "qm_document (hd (sr_matches (performSearch (loadIndex llmIndex) llmQuestion))) = llmDocA
   \<and> qm_matchedKeywords (hd (sr_matches (performSearch (loadIndex llmIndex) llmQuestion))) \<noteq> []
   \<and> set (qm_matchedKeywords (hd (sr_matches (performSearch (loadIndex llmIndex) llmQuestion))))
       \<subseteq> set (sr_matchedKeywords (performSearch (loadIndex llmIndex) llmQuestion))
   \<and> ''b'' \<notin> (\<lambda>m'. doc_id (qm_document m')) `
        set (sr_matches (performSearch (loadIndex llmIndex) llmQuestion))"
proof -
  let ?r = "performSearch (loadIndex llmIndex) llmQuestion"
  let ?b = "\<lparr>qm_document = llmDocB, qm_category = ''AI Concepts'',
     qm_link = ''https://example.com/ai'', qm_matchedKeywords = [''large language model'']\<rparr>"
  have h0: "qm_document (hd (sr_matches ?r)) = llmDocA" by (simp add: eval_llm_search)
  have h1: "hd (sr_matches ?r) \<in> set (sr_matches ?r)" by (simp add: eval_llm_search)
  have k: "filteredKeywords (loadIndex llmIndex) llmQuestion = [''large language models'']"
    using eval_llm_search by (simp add: performSearch_def)
  have h2: "(''b'', ?b) \<in> set (documentMatches (loadIndex llmIndex) llmQuestion)
    \<and> set (qm_matchedKeywords ?b) \<inter> set (filteredKeywords (loadIndex llmIndex) llmQuestion) = {}"
    unfolding k by (simp add: eval_llm_buckets)
  from C7_bucket_integrity[of "hd (sr_matches ?r)" "loadIndex llmIndex" llmQuestion "''b''" ?b]
    h0 h1 h2
  show ?thesis by blast
qed

subsection \<open>C8: categories and links of the context\<close>

text \<open>
  Claim C8 as stated fails: when two matched categories share a link, the deduplicated links
  are fewer than the categories, and the link at index 1 is not the link of the category
  named at index 1 (the second category of the index).
\<close>

theorem C8_categories_links_counterexample:
  "sr_matches (performSearch (loadIndex sharedLinkIndex) sharedQuestion) \<noteq> []
   \<and> cr_categories (searchContext (loadIndex sharedLinkIndex) sharedLinkIndex sharedQuestion)
     = [''Machine Learning'', ''Deep Learning'', ''NLP'']
   \<and> cr_links (searchContext (loadIndex sharedLinkIndex) sharedLinkIndex sharedQuestion)
     = [''https://example.com/learn'', ''https://example.com/nlp'']
   \<and> cat_category (sharedLinkIndex ! 1)
     = cr_categories (searchContext (loadIndex sharedLinkIndex) sharedLinkIndex sharedQuestion) ! 1
   \<and> cat_link (sharedLinkIndex ! 1)
     \<noteq> cr_links (searchContext (loadIndex sharedLinkIndex) sharedLinkIndex sharedQuestion) ! 1"
proof -
  have "sr_matches (performSearch (loadIndex sharedLinkIndex) sharedQuestion) \<noteq> []"
    using eval_shared_context
    by (auto simp: searchContext_def assemble_def fallbackResult_def emptyResult_def
        sharedLinkIndex_def)
  then show ?thesis
    by (simp add: eval_shared_context) (simp add: sharedLinkIndex_def)
qed

text \<open>
  Claim C8, amended. For a non-empty matches sequence the categories are the deduplication in
  first-occurrence order of the matches' category names, and the links that of the matches'
  links. When, among the matches, two category names are equal exactly when the two links
  are equal, the two lists have the same length and at every index the category and the
  link are those of one match.
\<close>

theorem C8_categories_links_amended:
  "(matches \<noteq> [] \<longrightarrow>
      cr_categories (assemble matches idx) = spec_dedup (map qm_category matches)
      \<and> cr_links (assemble matches idx) = spec_dedup (map qm_link matches))
   \<and> (matches \<noteq> [] \<and> aligned matches \<and> i < length (cr_categories (assemble matches idx)) \<longrightarrow>
        length (cr_links (assemble matches idx)) = length (cr_categories (assemble matches idx))
        \<and> (\<exists>m. m \<in> set matches \<and> qm_category m = cr_categories (assemble matches idx) ! i
              \<and> qm_link m = cr_links (assemble matches idx) ! i))"
proof (intro conjI impI)
  assume ne: "matches \<noteq> []"
  then show "cr_categories (assemble matches idx) = spec_dedup (map qm_category matches)"
    and "cr_links (assemble matches idx) = spec_dedup (map qm_link matches)"
    by (simp_all add: assemble_def Set_of_spec)
next
  assume a: "matches \<noteq> [] \<and> aligned matches \<and> i < length (cr_categories (assemble matches idx))"
  then have c: "cr_categories (assemble matches idx) = spec_dedup (map qm_category matches)"
    and l: "cr_links (assemble matches idx) = spec_dedup (map qm_link matches)"
    by (simp_all add: assemble_def Set_of_spec)
  from a aligned_dedup[of matches] obtain ms' where ms': "set ms' \<subseteq> set matches"
    "spec_dedup (map qm_category matches) = map qm_category ms'"
    "spec_dedup (map qm_link matches) = map qm_link ms'" by blast
  show "length (cr_links (assemble matches idx)) = length (cr_categories (assemble matches idx))"
    unfolding c l ms'(2,3) by simp
  have i: "i < length ms'" using a unfolding c ms'(2) by simp
  then have "ms' ! i \<in> set matches" using ms'(1) by auto
  then show "\<exists>m. m \<in> set matches \<and> qm_category m = cr_categories (assemble matches idx) ! i
              \<and> qm_link m = cr_links (assemble matches idx) ! i"
    unfolding c l ms'(2,3) using i by (intro exI[of _ "ms' ! i"]) simp
qed

text \<open>
  The amended claim on four keywords in three matches, two of them of one category: the
  repeated category is dropped, and at index 1 category and link are those of the second
  match.
\<close>

theorem C8_categories_links_amended_witness:
  "length (sr_matches (performSearch (loadIndex pairIndex) pairQuestion)) = 3
   \<and> cr_categories (assemble (sr_matches (performSearch (loadIndex pairIndex) pairQuestion))
       pairIndex) = [''NLP'', ''Vision'']
   \<and> cr_links (assemble (sr_matches (performSearch (loadIndex pairIndex) pairQuestion))
       pairIndex) = [''https://example.com/nlp'', ''https://example.com/vision'']
   \<and> qm_category (sr_matches (performSearch (loadIndex pairIndex) pairQuestion) ! 1)
     = cr_categories (assemble (sr_matches (performSearch (loadIndex pairIndex) pairQuestion))
         pairIndex) ! 1
   \<and> qm_link (sr_matches (performSearch (loadIndex pairIndex) pairQuestion) ! 1)
     = cr_links (assemble (sr_matches (performSearch (loadIndex pairIndex) pairQuestion))
         pairIndex) ! 1"
proof -
  let ?ms = "sr_matches (performSearch (loadIndex pairIndex) pairQuestion)"
  have h1: "?ms \<noteq> []" by (simp add: eval_pair_search)
  have h2: "aligned ?ms" by (simp add: eval_pair_search aligned_def)
  from C8_categories_links_amended[of ?ms pairIndex 1] h1
  have c: "cr_categories (assemble ?ms pairIndex) = spec_dedup (map qm_category ?ms)"
    and l: "cr_links (assemble ?ms pairIndex) = spec_dedup (map qm_link ?ms)" by blast+
  have cv: "cr_categories (assemble ?ms pairIndex) = [''NLP'', ''Vision'']"
    unfolding c by (simp add: eval_pair_search)
  have lv: "cr_links (assemble ?ms pairIndex)
      = [''https://example.com/nlp'', ''https://example.com/vision'']"
    unfolding l by (simp add: eval_pair_search)
  have h3: "1 < length (cr_categories (assemble ?ms pairIndex))" unfolding cv by simp
  from C8_categories_links_amended[of ?ms pairIndex 1] h1 h2 h3
  have "length (cr_links (assemble ?ms pairIndex)) = length (cr_categories (assemble ?ms pairIndex))
      \<and> (\<exists>m. m \<in> set ?ms \<and> qm_category m = cr_categories (assemble ?ms pairIndex) ! 1
              \<and> qm_link m = cr_links (assemble ?ms pairIndex) ! 1)" by blast
  moreover have "length ?ms = 3" by (simp add: eval_pair_search)
  moreover have "qm_category (?ms ! 1) = cr_categories (assemble ?ms pairIndex) ! 1"
    unfolding cv by (simp add: eval_pair_search)
  moreover have "qm_link (?ms ! 1) = cr_links (assemble ?ms pairIndex) ! 1"
    unfolding lv by (simp add: eval_pair_search)
  ultimately show ?thesis using cv lv by blast
qed

subsection \<open>C9: the two apps compute the same results\<close>

text \<open>
  Claim C9. For every keyword map, Knowledge Index and question, \<^verbatim>\<open>performSearch\<close> of the
  computing-history app returns the same matches and the same kept keywords as that of the
  Ask Andrew app, and \<^verbatim>\<open>searchContext\<close> returns the same result.
\<close>

theorem C9_same_results:
  "ch_performSearch km question = performSearch km question
   \<and> sr_matches (ch_performSearch km question) = sr_matches (performSearch km question)
   \<and> set (sr_matchedKeywords (ch_performSearch km question))
       = set (sr_matchedKeywords (performSearch km question))
   \<and> ch_searchContext km idx question = searchContext km idx question"
  by (simp add: ch_performSearch_eq ch_searchContext_eq)

subsection \<open>C10: the kept keywords are the union of the buckets\<close>

text \<open>
  Claim C10 as stated fails: buckets are keyed by document id, so when two documents of the
  index carry the same id, a kept keyword lies in the bucket of the first of them, which is
  not the document its index entry points to.
\<close>

theorem C10_kept_is_union_counterexample:
  "''bar'' \<in> set (sr_matchedKeywords (performSearch (loadIndex sameIdIndex) ''foo bar''))
   \<and> Map_get (loadIndex sameIdIndex) ''bar''
     = Some \<lparr>ent_document = sameIdDoc2, ent_category = ''NLP'',
             ent_link = ''https://example.com/nlp''\<rparr>
   \<and> sr_matches (performSearch (loadIndex sameIdIndex) ''foo bar'')
     = [\<lparr>qm_document = sameIdDoc1, qm_category = ''NLP'', qm_link = ''https://example.com/nlp'',
         qm_matchedKeywords = [''foo'', ''bar'']\<rparr>]
   \<and> sameIdDoc1 \<noteq> sameIdDoc2"
  by (simp add: eval_sameId_search eval_sameId_entry) (simp add: sameIdDoc1_def sameIdDoc2_def)

text \<open>
  Claim C10, amended. The kept keywords that \<^verbatim>\<open>performSearch\<close> returns are, as a set, the
  union of the \<^verbatim>\<open>matchedKeywords\<close> of the returned matches, so no match holds a keyword
  outside the kept set. Every kept keyword has an entry in the keyword map and lies in the
  list of exactly one match, which carries the document id of that entry; when equal ids
  mean equal documents in the keyword map, that match carries the entry's document.
\<close>

theorem C10_kept_is_union_amended:
  "set (sr_matchedKeywords (performSearch km q))
     = \<Union> (set ` qm_matchedKeywords ` set (sr_matches (performSearch km q)))
   \<and> (kw \<in> set (sr_matchedKeywords (performSearch km q)) \<longrightarrow>
        (\<exists>e. Map_get km kw = Some e
           \<and> (\<exists>!m. m \<in> set (sr_matches (performSearch km q)) \<and> kw \<in> set (qm_matchedKeywords m))
           \<and> (\<exists>m. m \<in> set (sr_matches (performSearch km q)) \<and> kw \<in> set (qm_matchedKeywords m)
                  \<and> doc_id (qm_document m) = doc_id (ent_document e))))
   \<and> (uniqueDocIds km \<and> m \<in> set (sr_matches (performSearch km q))
        \<and> kw \<in> set (qm_matchedKeywords m) \<and> Map_get km kw = Some e \<longrightarrow>
        qm_document m = ent_document e)"
proof (intro conjI impI)
  let ?r = "performSearch km q"
  have k: "sr_matchedKeywords ?r = filteredKeywords km q" by (simp add: performSearch_def)
  show "set (sr_matchedKeywords ?r) = \<Union> (set ` qm_matchedKeywords ` set (sr_matches ?r))"
  proof (intro equalityI subsetI)
    fix x assume x: "x \<in> set (sr_matchedKeywords ?r)"
    then obtain e where "map_of km x = Some e"
      using filteredKeywords_triggered[of x km q] unfolding k by blast
    from kept_in_own_bucket[OF x[unfolded k] this]
    show "x \<in> \<Union> (set ` qm_matchedKeywords ` set (sr_matches ?r))" by blast
  next
    fix x assume "x \<in> \<Union> (set ` qm_matchedKeywords ` set (sr_matches ?r))"
    then show "x \<in> set (sr_matchedKeywords ?r)"
      unfolding k using match_keyword_props(1) by blast
  qed
  {
    assume kw: "kw \<in> set (sr_matchedKeywords ?r)"
    then obtain e where e: "map_of km kw = Some e"
      using filteredKeywords_triggered[of kw km q] unfolding k by blast
    from kept_in_own_bucket[OF kw[unfolded k] e] obtain m where
      m: "m \<in> set (sr_matches ?r)" "kw \<in> set (qm_matchedKeywords m)"
         "doc_id (qm_document m) = doc_id (ent_document e)" by blast
    have uniq: "m' = m" if "m' \<in> set (sr_matches ?r)" "kw \<in> set (qm_matchedKeywords m')" for m'
    proof -
      from match_keyword_props(2)[OF that] e
      have "doc_id (qm_document m') = doc_id (ent_document e)" by simp
      with m(3) show ?thesis using match_unique[OF that(1) m(1)] by simp
    qed
    show "\<exists>e. Map_get km kw = Some e
           \<and> (\<exists>!m. m \<in> set (sr_matches ?r) \<and> kw \<in> set (qm_matchedKeywords m))
           \<and> (\<exists>m. m \<in> set (sr_matches ?r) \<and> kw \<in> set (qm_matchedKeywords m)
                  \<and> doc_id (qm_document m) = doc_id (ent_document e))"
      unfolding Map_get_def using e m uniq by blast
  }
  assume "uniqueDocIds km \<and> m \<in> set (sr_matches ?r)
        \<and> kw \<in> set (qm_matchedKeywords m) \<and> Map_get km kw = Some e"
  then show "qm_document m = ent_document e"
    unfolding Map_get_def using match_document by blast
qed

text \<open>
  An index with two categories and three documents: four kept keywords in three matches,
  the first of which holds two of them.
\<close>

theorem C10_kept_is_union_amended_witness:
  "length (sr_matches (performSearch (loadIndex pairIndex) pairQuestion)) = 3
   \<and> \<Union> (set ` qm_matchedKeywords ` set (sr_matches (performSearch (loadIndex pairIndex)
         pairQuestion))) = {''token'', ''pixel'', ''stemming'', ''corpus''}
   \<and> ''corpus'' \<in> set (sr_matchedKeywords (performSearch (loadIndex pairIndex) pairQuestion))
   \<and> (\<exists>!m. m \<in> set (sr_matches (performSearch (loadIndex pairIndex) pairQuestion))
            \<and> ''corpus'' \<in> set (qm_matchedKeywords m))
   \<and> qm_document (hd (sr_matches (performSearch (loadIndex pairIndex) pairQuestion))) = pairDoc1"
proof -
  let ?km = "loadIndex pairIndex"
  let ?r = "performSearch ?km pairQuestion"
  let ?e = "\<lparr>ent_document = pairDoc1, ent_category = ''NLP'',
           ent_link = ''https://example.com/nlp''\<rparr>"
  have h1: "''corpus'' \<in> set (sr_matchedKeywords ?r)" by (simp add: eval_pair_search)
  have h2: "uniqueDocIds ?km" by (rule loadIndex_uniqueDocIds[OF eval_pair_ids])
  have h3: "hd (sr_matches ?r) \<in> set (sr_matches ?r)
      \<and> ''corpus'' \<in> set (qm_matchedKeywords (hd (sr_matches ?r)))"
    by (simp add: eval_pair_search)
  have h4: "Map_get ?km ''corpus'' = Some ?e" by (rule eval_pair_entry)
  have k: "set (sr_matchedKeywords ?r) = {''token'', ''pixel'', ''stemming'', ''corpus''}"
    by (simp add: eval_pair_search)
  have n: "length (sr_matches ?r) = 3" by (simp add: eval_pair_search)
  from C10_kept_is_union_amended[of ?km pairQuestion "''corpus''" "hd (sr_matches ?r)" ?e]
    h1 h2 h3 h4
  have "set (sr_matchedKeywords ?r) = \<Union> (set ` qm_matchedKeywords ` set (sr_matches ?r))"
    and "\<exists>!m. m \<in> set (sr_matches ?r) \<and> ''corpus'' \<in> set (qm_matchedKeywords m)"
    and "qm_document (hd (sr_matches ?r)) = ent_document ?e"
    by blast+
  with k n h1 show ?thesis by simp
qed

end
